theory Spec2Isabelle
  imports Main "HOL-Library.Word"
begin

unbundle bit_operations_syntax

section \<open>Conventions of the embedding\<close>

text \<open>
  The development embeds \<^verbatim>\<open>shenandoahFreeSet.hpp\<close> and \<^verbatim>\<open>shenandoahFreeSet.cpp\<close>:
  the bit map \<^verbatim>\<open>ShenandoahSimpleBitMap\<close>, the partition table
  \<^verbatim>\<open>ShenandoahRegionPartitions\<close> and the allocation engine \<^verbatim>\<open>ShenandoahFreeSet\<close>.

  \<^item> \<^verbatim>\<open>size_t\<close> values that count bytes or regions are 64-bit words, so that every
    \<^verbatim>\<open>+=\<close>, \<^verbatim>\<open>-=\<close>, \<^verbatim>\<open>++\<close> and \<^verbatim>\<open>--\<close> wraps as the machine does.
  \<^item> Region and bit indices (\<^verbatim>\<open>ssize_t\<close>) are mathematical integers. Where the code
    computes one from a \<^verbatim>\<open>size_t\<close> (the run length of \<^verbatim>\<open>find_next_consecutive_bits\<close>,
    the number of regions of \<^verbatim>\<open>allocate_contiguous\<close>), the arithmetic is done on 64-bit
    words and the result read as a signed word, as the machine does.
  \<^item> Every function that can stop returns \<open>vm_error + 'a\<close>. The first argument
    \<open>dbg\<close> of such a function says whether \<^verbatim>\<open>assert\<close> is compiled in (a debug build):
    a failed assertion is then \<open>Inl AssertionFailure\<close>. An index assertion also guards a
    memory access; when it is violated in a product build the access leaves the bit map,
    which the model reports as \<open>Inl OutOfRange\<close>.
  \<^item> A shift of a 64-bit value by 64 or more has no defined result in C++, and the code
    does not check the count. The compiled code shifts with the instruction of the
    machine, which on x86-64 and on AArch64 takes the count modulo 64; so does the model.
\<close>

type_synonym size_t = "64 word"

datatype vm_error =
    AssertionFailure
  | OutOfRange
  | NullRegion
  | ShouldNotReachHere

definition idx_error :: "bool \<Rightarrow> vm_error" where
  "idx_error dbg = (if dbg then AssertionFailure else OutOfRange)"

definition assert_fails :: "bool \<Rightarrow> bool \<Rightarrow> bool" where
  "assert_fails dbg c = (dbg \<and> \<not> c)"

text \<open>
  \<^verbatim>\<open>((size_t) 0x1) << n\<close> for a shift count \<open>n\<close> of type \<^verbatim>\<open>size_t\<close> that the code computes
  at run time: \<open>1 << 64\<close> is \<open>1\<close>.
\<close>

definition shl_one :: "size_t \<Rightarrow> size_t" where
  "shl_one n = push_bit (unat n mod 64) 1"

section \<open>ShenandoahSimpleBitMap\<close>

text \<open>
  \<^verbatim>\<open>_bitmap\<close> points to \<^verbatim>\<open>_num_words\<close> words of the C heap. The model keeps the array
  as the list \<open>bitmap_words\<close>, whose length is \<^verbatim>\<open>_num_words\<close>, together with \<open>beyond\<close>,
  what memory holds after the array. \<open>bitmap bm i\<close> is the read \<^verbatim>\<open>_bitmap[i]\<close> and
  \<open>bitmap_store bm i w\<close> the write \<^verbatim>\<open>_bitmap[i] = w\<close>, inside the array or past it. The
  code reads one word past the array in \<^verbatim>\<open>find_next_consecutive_bits\<close>.
\<close>

record ShenandoahSimpleBitMap =
  num_bits :: int
  bitmap_words :: "size_t list"
  beyond :: "nat \<Rightarrow> size_t"

definition num_words :: "ShenandoahSimpleBitMap \<Rightarrow> nat" where
  "num_words bm = length (bitmap_words bm)"

definition bitmap :: "ShenandoahSimpleBitMap \<Rightarrow> nat \<Rightarrow> size_t" where
  "bitmap bm i = (if i < num_words bm then bitmap_words bm ! i else beyond bm i)"

definition bitmap_store :: "ShenandoahSimpleBitMap \<Rightarrow> nat \<Rightarrow> size_t \<Rightarrow> ShenandoahSimpleBitMap" where
  "bitmap_store bm i w =
     (if i < num_words bm then bm\<lparr>bitmap_words := (bitmap_words bm)[i := w]\<rparr>
      else bm\<lparr>beyond := (beyond bm)(i := w)\<rparr>)"

definition clear_all :: "ShenandoahSimpleBitMap \<Rightarrow> ShenandoahSimpleBitMap" where
  "clear_all bm = bm\<lparr>bitmap_words := replicate (num_words bm) 0\<rparr>"

text \<open>The constructor; \<open>mem\<close> is the content of the freshly allocated memory and beyond.\<close>

definition new_bitmap :: "nat \<Rightarrow> (nat \<Rightarrow> size_t) \<Rightarrow> ShenandoahSimpleBitMap" where
  "new_bitmap n mem =
     clear_all \<lparr>num_bits = int n, bitmap_words = map mem [0 ..< (n + (64 - 1)) div 64],
                beyond = mem\<rparr>"

definition in_range :: "ShenandoahSimpleBitMap \<Rightarrow> int \<Rightarrow> bool" where
  "in_range bm idx = (idx \<ge> 0 \<and> idx < num_bits bm)"

definition set_bit_bm :: "bool \<Rightarrow> ShenandoahSimpleBitMap \<Rightarrow> int \<Rightarrow> vm_error + ShenandoahSimpleBitMap" where
  "set_bit_bm dbg bm idx =
     (if \<not> in_range bm idx then Inl (idx_error dbg)
      else let array_idx = nat idx div 64;
               bit_number = nat idx mod 64;
               the_bit = push_bit bit_number (1::size_t)
           in Inr (bitmap_store bm array_idx (bitmap bm array_idx OR the_bit)))"

definition clear_bit_bm :: "bool \<Rightarrow> ShenandoahSimpleBitMap \<Rightarrow> int \<Rightarrow> vm_error + ShenandoahSimpleBitMap" where
  "clear_bit_bm dbg bm idx =
     (if \<not> in_range bm idx then Inl (idx_error dbg)
      else let array_idx = nat idx div 64;
               bit_number = nat idx mod 64;
               the_bit = push_bit bit_number (1::size_t)
           in Inr (bitmap_store bm array_idx (bitmap bm array_idx AND NOT the_bit)))"

definition is_set :: "bool \<Rightarrow> ShenandoahSimpleBitMap \<Rightarrow> int \<Rightarrow> vm_error + bool" where
  "is_set dbg bm idx =
     (if \<not> in_range bm idx then Inl (idx_error dbg)
      else let array_idx = nat idx div 64;
               bit_number = nat idx mod 64;
               the_bit = push_bit bit_number (1::size_t)
           in Inr (bitmap bm array_idx AND the_bit \<noteq> 0))"

text \<open>The bit of index \<open>i\<close>, for stating properties (no precondition, no error).\<close>

definition bit_at :: "ShenandoahSimpleBitMap \<Rightarrow> int \<Rightarrow> bool" where
  "bit_at bm i = bit (bitmap bm (nat i div 64)) (nat i mod 64)"

subsection \<open>Single-bit searches\<close>

text \<open>
  \<^verbatim>\<open>if (bit_number > 0) { mask_out = (1 << bit_number) - 1; element_bits &= ~mask_out; }\<close>
  and \<^verbatim>\<open>if (bit_number < 63) { mask_in = (1 << (bit_number + 1)) - 1; element_bits &= mask_in; }\<close>
\<close>

definition mask_out_below :: "size_t \<Rightarrow> nat \<Rightarrow> size_t" where
  "mask_out_below element_bits bit_number =
     (if bit_number > 0 then element_bits AND NOT (push_bit bit_number 1 - 1) else element_bits)"

definition mask_in_upto :: "size_t \<Rightarrow> nat \<Rightarrow> size_t" where
  "mask_in_upto element_bits bit_number =
     (if bit_number < 63 then element_bits AND (push_bit (bit_number + 1) 1 - 1) else element_bits)"

text \<open>
  The inner \<^verbatim>\<open>while (bit_number < _bits_per_array_element)\<close> of \<^verbatim>\<open>find_next_set_bit\<close>:
  the position of the first set bit at or above \<open>bit_number\<close>, or \<open>None\<close> when the loop
  runs out (the \<^verbatim>\<open>assert(false, "should not reach here")\<close>).
\<close>

function scan_up :: "size_t \<Rightarrow> size_t \<Rightarrow> nat \<Rightarrow> nat option" where
  "scan_up element_bits the_bit bit_number =
     (if bit_number < 64 then
        (if element_bits AND the_bit \<noteq> 0 then Some bit_number
         else scan_up element_bits (push_bit 1 the_bit) (bit_number + 1))
      else None)"
  by pat_completeness auto
termination
  by (relation "measure (\<lambda>(e, b, n). 64 - n)") auto

declare scan_up.simps [simp del]

text \<open>
  The \<^verbatim>\<open>do ... while (start_idx < boundary_idx)\<close> of \<^verbatim>\<open>find_next_set_bit\<close>. When the
  inner loop runs out the product build would come back here with \<open>start_idx\<close>
  unchanged; the model stops with \<open>ShouldNotReachHere\<close> (lemma \<open>scan_up_masked\<close> shows
  that it never happens).
\<close>

function find_next_set_bit_loop :: "ShenandoahSimpleBitMap \<Rightarrow> int \<Rightarrow> int \<Rightarrow> vm_error + int" where
  "find_next_set_bit_loop bm start_idx boundary_idx =
     (if start_idx < 0 then Inl OutOfRange
      else let array_idx = nat start_idx div 64;
               bit_number = nat start_idx mod 64;
               element_bits = mask_out_below (bitmap bm array_idx) bit_number
           in if element_bits \<noteq> 0 then
                (case scan_up element_bits (push_bit bit_number 1) bit_number of
                   Some b \<Rightarrow>
                     (let candidate_result = int (array_idx * 64) + int b
                      in if candidate_result < boundary_idx then Inr candidate_result
                         else Inr boundary_idx)
                 | None \<Rightarrow> Inl ShouldNotReachHere)
              else
                (let start_idx' = start_idx + (64 - int bit_number)
                 in if start_idx' < boundary_idx
                    then find_next_set_bit_loop bm start_idx' boundary_idx
                    else Inr boundary_idx))"
  by pat_completeness auto
termination
  by (relation "measure (\<lambda>(bm, s, b). nat (b - s))") (auto simp: Let_def)

declare find_next_set_bit_loop.simps [simp del]

definition find_next_set_bit :: "bool \<Rightarrow> ShenandoahSimpleBitMap \<Rightarrow> int \<Rightarrow> int \<Rightarrow> vm_error + int" where
  "find_next_set_bit dbg bm start_idx boundary_idx =
     (if \<not> in_range bm start_idx then Inl (idx_error dbg)
      else if assert_fails dbg (boundary_idx > start_idx \<and> boundary_idx \<le> num_bits bm)
      then Inl AssertionFailure
      else find_next_set_bit_loop bm start_idx boundary_idx)"

text \<open>
  The inner \<^verbatim>\<open>for (bit_iterator = bit_number; bit_iterator >= 0; bit_iterator--)\<close> of
  \<^verbatim>\<open>find_prev_set_bit\<close>.
\<close>

fun scan_down :: "size_t \<Rightarrow> size_t \<Rightarrow> nat \<Rightarrow> nat option" where
  "scan_down element_bits the_bit 0 =
     (if element_bits AND the_bit \<noteq> 0 then Some 0 else None)"
| "scan_down element_bits the_bit (Suc n) =
     (if element_bits AND the_bit \<noteq> 0 then Some (Suc n)
      else scan_down element_bits (drop_bit 1 the_bit) n)"

function find_prev_set_bit_loop :: "ShenandoahSimpleBitMap \<Rightarrow> int \<Rightarrow> int \<Rightarrow> vm_error + int" where
  "find_prev_set_bit_loop bm last_idx boundary_idx =
     (if last_idx < 0 then Inl OutOfRange
      else let array_idx = nat last_idx div 64;
               bit_number = nat last_idx mod 64;
               element_bits = mask_in_upto (bitmap bm array_idx) bit_number
           in if element_bits \<noteq> 0 then
                (case scan_down element_bits (push_bit bit_number 1) bit_number of
                   Some b \<Rightarrow>
                     (let candidate_result = int (array_idx * 64) + int b
                      in if candidate_result > boundary_idx then Inr candidate_result
                         else Inr boundary_idx)
                 | None \<Rightarrow> Inl ShouldNotReachHere)
              else
                (let last_idx' = last_idx - (int bit_number + 1)
                 in if last_idx' > boundary_idx
                    then find_prev_set_bit_loop bm last_idx' boundary_idx
                    else Inr boundary_idx))"
  by pat_completeness auto
termination
  by (relation "measure (\<lambda>(bm, l, b). nat (l + 1))") (auto simp: Let_def)

declare find_prev_set_bit_loop.simps [simp del]

definition find_prev_set_bit :: "bool \<Rightarrow> ShenandoahSimpleBitMap \<Rightarrow> int \<Rightarrow> int \<Rightarrow> vm_error + int" where
  "find_prev_set_bit dbg bm last_idx boundary_idx =
     (if \<not> in_range bm last_idx then Inl (idx_error dbg)
      else if assert_fails dbg (boundary_idx \<ge> -1 \<and> boundary_idx < last_idx)
      then Inl AssertionFailure
      else find_prev_set_bit_loop bm last_idx boundary_idx)"

subsection \<open>Runs of consecutive bits\<close>

text \<open>The test \<^verbatim>\<open>(element_bits & mask) == mask\<close>.\<close>

definition mask_match :: "size_t \<Rightarrow> size_t \<Rightarrow> bool" where
  "mask_match element_bits m = (element_bits AND m = m)"

text \<open>
  The \<^verbatim>\<open>for (counted_ones = 0; element_bits & the_bit; counted_ones++) the_bit >>= 1\<close>
  of \<^verbatim>\<open>count_trailing_ones\<close>; it ends when \<open>the_bit\<close> has been shifted out.
\<close>

function count_down :: "size_t \<Rightarrow> size_t \<Rightarrow> nat \<Rightarrow> nat" where
  "count_down element_bits the_bit counted_ones =
     (if element_bits AND the_bit \<noteq> 0
      then count_down element_bits (drop_bit 1 the_bit) (counted_ones + 1)
      else counted_ones)"
  by pat_completeness auto
termination
proof (relation "measure (\<lambda>(e, b, n). unat b)")
  show "wf (measure (\<lambda>(e::size_t, b::size_t, n::nat). unat b))" by simp
next
  fix element_bits the_bit :: size_t and counted_ones :: nat
  assume "element_bits AND the_bit \<noteq> 0"
  then have "the_bit \<noteq> 0" by auto
  then have "unat the_bit \<noteq> 0" by (simp add: unat_eq_0)
  then have "unat the_bit div 2 < unat the_bit" by simp
  moreover have "unat (drop_bit 1 the_bit) = unat the_bit div 2"
    by (simp add: drop_bit_eq_div unat_div)
  ultimately show "((element_bits, drop_bit 1 the_bit, counted_ones + 1),
              (element_bits, the_bit, counted_ones)) \<in> measure (\<lambda>(e, b, n). unat b)"
    by simp
qed

declare count_down.simps [simp del]

function count_trailing_ones :: "bool \<Rightarrow> ShenandoahSimpleBitMap \<Rightarrow> int \<Rightarrow> vm_error + nat" where
  "count_trailing_ones dbg bm last_idx =
     (if \<not> in_range bm last_idx then Inl (idx_error dbg)
      else let array_idx = nat last_idx div 64;
               element_bits = bitmap bm array_idx;
               bit_number = nat last_idx mod 64;
               the_bit = push_bit bit_number (1::size_t);
               all_ones_mask = (the_bit * 2) - 1
           in if mask_match element_bits all_ones_mask then
                (let counted_ones = bit_number + 1
                 in case count_trailing_ones dbg bm (last_idx - int counted_ones) of
                      Inl e \<Rightarrow> Inl e
                    | Inr n \<Rightarrow> Inr (counted_ones + n))
              else Inr (count_down element_bits the_bit 0))"
  by pat_completeness auto
termination
  by (relation "measure (\<lambda>(dbg, bm, l). nat (l + 1))") (simp_all add: in_range_def)

declare count_trailing_ones.simps [simp del]

function is_forward_consecutive_ones ::
  "bool \<Rightarrow> ShenandoahSimpleBitMap \<Rightarrow> int \<Rightarrow> int \<Rightarrow> vm_error + bool" where
  "is_forward_consecutive_ones dbg bm start_idx count =
     (if \<not> in_range bm start_idx then Inl (idx_error dbg)
      else if assert_fails dbg (start_idx + count \<le> num_bits bm) then Inl AssertionFailure
      else let array_idx = nat start_idx div 64;
               bit_number = nat start_idx mod 64;
               element_bits = bitmap bm array_idx
           in if 64 - int bit_number \<ge> count then
                (let overreach_mask = shl_one (of_nat bit_number + word_of_int count) - 1;
                     exclude_mask = push_bit bit_number 1 - 1;
                     exact_mask = overreach_mask AND NOT exclude_mask
                 in Inr (mask_match element_bits exact_mask))
              else
                (let overreach_mask = (- 1 :: size_t);
                     exclude_mask = push_bit bit_number 1 - 1;
                     exact_mask = overreach_mask AND NOT exclude_mask
                 in if mask_match element_bits exact_mask then
                      (let matched_bits = 64 - int bit_number
                       in is_forward_consecutive_ones dbg bm (start_idx + matched_bits)
                            (count - matched_bits))
                    else Inr False))"
  by pat_completeness auto
termination
  by (relation "measure (\<lambda>(dbg, bm, s, c). nat c)") simp_all

declare is_forward_consecutive_ones.simps [simp del]

subsection \<open>What the bit map primitives compute\<close>

lemma bitmap_bitmap_store [simp]: "bitmap (bitmap_store bm i w) = (bitmap bm)(i := w)"
  by (auto simp: bitmap_def bitmap_store_def num_words_def fun_eq_iff)

lemma num_bits_bitmap_store [simp]: "num_bits (bitmap_store bm i w) = num_bits bm"
  by (simp add: bitmap_store_def)

lemma num_words_bitmap_store [simp]: "num_words (bitmap_store bm i w) = num_words bm"
  by (simp add: bitmap_store_def num_words_def)

lemma in_range_bitmap_store [simp]: "in_range (bitmap_store bm i w) j = in_range bm j"
  by (simp add: in_range_def)

lemma bitmap_clear_all: "bitmap (clear_all bm) i = (if i < num_words bm then 0 else beyond bm i)"
  by (simp add: bitmap_def clear_all_def num_words_def)

lemma num_bits_clear_all [simp]: "num_bits (clear_all bm) = num_bits bm"
  by (simp add: clear_all_def)

lemma num_words_clear_all [simp]: "num_words (clear_all bm) = num_words bm"
  by (simp add: clear_all_def num_words_def)

lemma mask_match_iff: "mask_match w m \<longleftrightarrow> (\<forall>j. bit m j \<longrightarrow> bit w j)"
proof
  assume "mask_match w m"
  then have e: "w AND m = m" by (simp add: mask_match_def)
  show "\<forall>j. bit m j \<longrightarrow> bit w j"
  proof (intro allI impI)
    fix j assume "bit m j"
    then have "bit (w AND m) j" using e by simp
    then show "bit w j" by (simp add: bit_and_iff)
  qed
next
  assume "\<forall>j. bit m j \<longrightarrow> bit w j"
  then show "mask_match w m"
    unfolding mask_match_def by (auto simp: bit_eq_iff bit_and_iff)
qed

lemma one_shl_minus: "push_bit n (1::size_t) - 1 = mask n"
  by (simp add: mask_eq_exp_minus_1 push_bit_of_1)

lemma bit_test: "(w AND push_bit n (1::size_t) \<noteq> 0) = bit w n"
  by (simp add: push_bit_of_1 and_exp_eq_0_iff_not_bit)

lemma bit_at_word: "p < 64 \<Longrightarrow> bit_at bm (int (a * 64 + p)) = bit (bitmap bm a) p"
  unfolding bit_at_def nat_int by simp

lemma bit_at_split: "0 \<le> j \<Longrightarrow> bit_at bm j = bit (bitmap bm (nat j div 64)) (nat j mod 64)"
  by (simp add: bit_at_def)

lemma is_set_bit_at: "in_range bm i \<Longrightarrow> is_set dbg bm i = Inr (bit_at bm i)"
  by (simp add: is_set_def bit_at_def Let_def bit_test del: push_bit_of_1)

lemma bit_test2: "(w AND (2::size_t) ^ n \<noteq> 0) = bit w n"
  by (simp add: and_exp_eq_0_iff_not_bit)

lemma scan_up_Some:
  "scan_up w (2 ^ b) b = Some r \<Longrightarrow>
     b \<le> r \<and> r < 64 \<and> bit w r \<and> (\<forall>j. b \<le> j \<and> j < r \<longrightarrow> \<not> bit w j)"
proof (induction "64 - b" arbitrary: b)
  case 0
  then show ?case by (simp add: scan_up.simps [of w "2 ^ b" b])
next
  case (Suc n)
  then have b: "b < 64" by simp
  show ?case
  proof (cases "bit w b")
    case True
    with Suc.prems b show ?thesis by (auto simp: scan_up.simps [of w "2 ^ b" b] bit_test2)
  next
    case False
    with Suc.prems b have "scan_up w (2 ^ (b + 1)) (b + 1) = Some r"
      by (simp add: scan_up.simps [of w "2 ^ b" b] bit_test2 mult.commute)
    moreover have "n = 64 - (b + 1)" using Suc.hyps(2) by simp
    ultimately have "b + 1 \<le> r \<and> r < 64 \<and> bit w r \<and> (\<forall>j. b + 1 \<le> j \<and> j < r \<longrightarrow> \<not> bit w j)"
      using Suc.hyps(1) by blast
    with False show ?thesis
      by (metis Suc_eq_plus1 Suc_leI le_neq_implies_less nat_less_le order.trans le_add1)
  qed
qed

lemma scan_up_None:
  "scan_up w (2 ^ b) b = None \<Longrightarrow> (\<forall>j. b \<le> j \<longrightarrow> \<not> bit w j)"
proof (induction "64 - b" arbitrary: b)
  case 0
  then have "64 \<le> b" by simp
  then show ?case using bit_imp_le_length [of w] by fastforce
next
  case (Suc n)
  then have b: "b < 64" by simp
  have nb: "\<not> bit w b" using Suc.prems b
    by (auto simp: scan_up.simps [of w "2 ^ b" b] bit_test2 split: if_splits)
  with Suc.prems b have "scan_up w (2 ^ (b + 1)) (b + 1) = None"
    by (simp add: scan_up.simps [of w "2 ^ b" b] bit_test2 mult.commute)
  moreover have "n = 64 - (b + 1)" using Suc.hyps(2) by simp
  ultimately have "\<forall>j. b + 1 \<le> j \<longrightarrow> \<not> bit w j"
    using Suc.hyps(1) by blast
  with nb show ?case
    by (metis Suc_eq_plus1 Suc_leI le_neq_implies_less)
qed

lemma same_word:
  assumes "0 \<le> s" "s \<le> j" "j < s + (64 - int (nat s mod 64))"
  shows "nat j div 64 = nat s div 64" and "nat s mod 64 \<le> nat j mod 64"
proof -
  obtain sn jn where sn: "s = int sn" and jn: "j = int jn"
    using assms by (metis nonneg_int_cases order.trans)
  have le: "sn \<le> jn" using assms sn jn by simp
  have lt: "jn < sn + (64 - sn mod 64)" using assms sn jn by simp
  have "sn = 64 * (sn div 64) + sn mod 64" by simp
  then have "jn < 64 * (sn div 64) + 64" "64 * (sn div 64) \<le> jn"
    using lt le by linarith+
  then have d: "jn div 64 = sn div 64"
    by (metis add.commute div_nat_eqI mult.commute mult_Suc_right)
  then show "nat j div 64 = nat s div 64" using sn jn by simp
  have "jn = 64 * (jn div 64) + jn mod 64" by simp
  moreover have "sn = 64 * (sn div 64) + sn mod 64" by simp
  ultimately have "sn mod 64 \<le> jn mod 64" using le d
    by (metis add_le_cancel_left)
  then show "nat s mod 64 \<le> nat j mod 64" using sn jn by simp
qed

lemma bit_mask_out_below: "bit (mask_out_below w p) j = (bit w j \<and> p \<le> j)"
  using bit_imp_le_length [of w j]
  by (auto simp: mask_out_below_def bit_and_iff bit_not_iff bit_mask_iff simp flip: mask_eq_exp_minus_1)

lemma find_next_set_bit_loop_spec:
  "0 \<le> s \<Longrightarrow>
   \<exists>r. find_next_set_bit_loop bm s b = Inr r \<and>
       (r = b \<or> (s \<le> r \<and> r < b \<and> bit_at bm r)) \<and>
       (\<forall>j. s \<le> j \<and> j < r \<longrightarrow> \<not> bit_at bm j)"
proof (induction bm s b rule: find_next_set_bit_loop.induct)
  case (1 bm s b)
  define a where "a = nat s div 64"
  define p where "p = nat s mod 64"
  define e where "e = mask_out_below (bitmap bm a) p"
  have p64: "p < 64" by (simp add: p_def)
  have s_eq: "s = int (a * 64 + p)" using 1(2) by (simp add: a_def p_def)
  have e_bit: "bit e j = (bit (bitmap bm a) j \<and> p \<le> j)" for j
    by (simp add: e_def bit_mask_out_below)
  have inword: "bit_at bm j = bit (bitmap bm a) (nat j mod 64) \<and> p \<le> nat j mod 64"
    if "s \<le> j" "j < s + (64 - int p)" for j
    using same_word [OF 1(2) that(1)] that 1(2) by (simp add: bit_at_def a_def p_def)
  show ?case
  proof (cases "e = 0")
    case True
    have nobits: "\<not> bit_at bm j" if "s \<le> j" "j < s + (64 - int p)" for j
    proof -
      have "\<not> bit e (nat j mod 64)" using True by simp
      then show ?thesis using inword [OF that] e_bit by simp
    qed
    show ?thesis
    proof (cases "s + (64 - int p) < b")
      case lt: True
      have unf: "find_next_set_bit_loop bm s b = find_next_set_bit_loop bm (s + (64 - int p)) b"
        using True lt 1(2)
        by (subst find_next_set_bit_loop.simps) (simp add: Let_def a_def p_def e_def)
      have "0 \<le> s + (64 - int p)" using 1(2) p64 by simp
      then obtain r where r: "find_next_set_bit_loop bm (s + (64 - int p)) b = Inr r"
        "r = b \<or> (s + (64 - int p) \<le> r \<and> r < b \<and> bit_at bm r)"
        "\<forall>j. s + (64 - int p) \<le> j \<and> j < r \<longrightarrow> \<not> bit_at bm j"
        using 1(1) [OF _ refl refl refl _ refl] True lt 1(2)
        by (auto simp: a_def p_def e_def)
      have "\<forall>j. s \<le> j \<and> j < r \<longrightarrow> \<not> bit_at bm j"
        using r(3) nobits by (meson not_le_imp_less)
      moreover have "r = b \<or> (s \<le> r \<and> r < b \<and> bit_at bm r)" using r(2) p64 by auto
      ultimately show ?thesis using unf r(1) by auto
    next
      case ge: False
      have unf: "find_next_set_bit_loop bm s b = Inr b"
        using True ge 1(2)
        by (subst find_next_set_bit_loop.simps) (simp add: Let_def a_def p_def e_def)
      have "\<forall>j. s \<le> j \<and> j < b \<longrightarrow> \<not> bit_at bm j" using nobits ge by auto
      then show ?thesis using unf by simp
    qed
  next
    case False
    show ?thesis
    proof (cases "scan_up e (2 ^ p) p")
      case None
      have "\<not> bit e j" for j
      proof (cases "p \<le> j")
        case True then show ?thesis using scan_up_None [OF None] by simp
      next
        case False then show ?thesis using e_bit by simp
      qed
      then have "e = 0" by (simp add: bit_eq_iff)
      with False show ?thesis by simp
    next
      case (Some q)
      from scan_up_Some [OF Some]
      have q: "p \<le> q" "q < 64" "bit e q" "\<forall>j. p \<le> j \<and> j < q \<longrightarrow> \<not> bit e j" by auto
      define c where "c = int (a * 64) + int q"
      have c_ge: "s \<le> c" using q(1) by (simp add: c_def s_eq)
      have c_bit: "bit_at bm c" using bit_at_word [OF q(2), of bm a] q(3) e_bit by (simp add: c_def)
      have below: "\<not> bit_at bm j" if "s \<le> j" "j < c" for j
      proof -
        have jlt: "j < s + (64 - int p)" using that(2) q(2) by (simp add: c_def s_eq)
        have jm: "int (nat j mod 64) = j - int (a * 64)"
        proof -
          have "nat j div 64 = a" using same_word(1) [OF 1(2) that(1) jlt [unfolded p_def]] by (simp add: a_def)
          moreover have "nat j = 64 * (nat j div 64) + nat j mod 64" by simp
          ultimately have "nat j = 64 * a + nat j mod 64" by simp
          then have "int (nat j) = int (64 * a) + int (nat j mod 64)" by (metis of_nat_add)
          moreover have "0 \<le> j" using 1(2) that(1) by simp
          ultimately show ?thesis by simp
        qed
        then have "nat j mod 64 < q" using that(2) by (simp add: c_def)
        then have "\<not> bit e (nat j mod 64)" using q(4) inword [OF that(1) jlt] by simp
        then show ?thesis using inword [OF that(1) jlt] e_bit by simp
      qed
      have unf: "find_next_set_bit_loop bm s b = (if c < b then Inr c else Inr b)"
        using False Some 1(2)
        by (subst find_next_set_bit_loop.simps) (simp add: Let_def a_def p_def e_def c_def)
      show ?thesis
      proof (cases "c < b")
        case True
        then show ?thesis using unf c_ge c_bit below by auto
      next
        case False
        then have "\<forall>j. s \<le> j \<and> j < b \<longrightarrow> \<not> bit_at bm j" using below by auto
        then show ?thesis using unf False by simp
      qed
    qed
  qed
qed

lemma bit_mask_in_upto: "p < 64 \<Longrightarrow> bit (mask_in_upto w p) j = (bit w j \<and> j \<le> p)"
proof -
  assume p: "p < 64"
  have "push_bit (p + 1) (1::size_t) - 1 = mask (p + 1)"
    by (simp add: mask_eq_exp_minus_1 del: power_Suc)
  then show ?thesis using bit_imp_le_length [of w j] p
    by (auto simp: mask_in_upto_def bit_and_iff bit_mask_iff simp del: push_bit_of_1 power_Suc)
qed

lemma drop_bit_exp: "Suc n < 64 \<Longrightarrow> drop_bit 1 ((2::size_t) ^ Suc n) = 2 ^ n"
  by (simp add: drop_bit_exp_eq del: power_Suc)

lemma scan_down_Some:
  "p < 64 \<Longrightarrow> scan_down w (2 ^ p) p = Some q \<Longrightarrow>
     q \<le> p \<and> bit w q \<and> (\<forall>j. q < j \<and> j \<le> p \<longrightarrow> \<not> bit w j)"
proof (induction p)
  case 0
  then show ?case by (auto simp: bit_test2 [of w 0, simplified] split: if_splits)
next
  case (Suc n)
  show ?case
  proof (cases "bit w (Suc n)")
    case True
    then show ?thesis using Suc.prems by (auto simp: bit_test2 simp del: power_Suc)
  next
    case False
    then have "scan_down w (2 ^ n) n = Some q"
      using Suc.prems drop_bit_exp [of n] by (simp add: bit_test2 del: power_Suc)
    then have "q \<le> n \<and> bit w q \<and> (\<forall>j. q < j \<and> j \<le> n \<longrightarrow> \<not> bit w j)"
      using Suc by simp
    then show ?thesis using False by (auto simp: le_Suc_eq)
  qed
qed

lemma scan_down_None:
  "p < 64 \<Longrightarrow> scan_down w (2 ^ p) p = None \<Longrightarrow> (\<forall>j. j \<le> p \<longrightarrow> \<not> bit w j)"
proof (induction p)
  case 0
  then show ?case by (auto simp: bit_test2 [of w 0, simplified] split: if_splits)
next
  case (Suc n)
  have nb: "\<not> bit w (Suc n)" using Suc.prems
    by (auto simp: bit_test2 simp del: power_Suc split: if_splits)
  then have "scan_down w (2 ^ n) n = None"
    using Suc.prems drop_bit_exp [of n] by (simp add: bit_test2 del: power_Suc)
  then have "\<forall>j. j \<le> n \<longrightarrow> \<not> bit w j" using Suc by simp
  then show ?case using nb by (auto simp: le_Suc_eq)
qed

lemma count_down_zero: "count_down w 0 c = c"
  by (simp add: count_down.simps [of w 0 c])

lemma count_down_spec:
  "p < 64 \<Longrightarrow> \<exists>t. count_down w (2 ^ p) c = c + t \<and> t \<le> p + 1 \<and>
       (\<forall>j. p < j + t \<and> j \<le> p \<longrightarrow> bit w j) \<and> (t \<le> p \<longrightarrow> \<not> bit w (p - t))"
proof (induction p arbitrary: c)
  case 0
  show ?case
  proof (cases "bit w 0")
    case True
    then have "count_down w (2 ^ 0) c = c + 1"
      using bit_test2 [of w 0] by (simp add: count_down.simps [of w 1 c] count_down_zero drop_bit_eq_div)
    then show ?thesis using True by (intro exI [of _ 1]) auto
  next
    case False
    then have "count_down w (2 ^ 0) c = c + 0"
      using bit_test2 [of w 0] by (simp add: count_down.simps [of w 1 c])
    then show ?thesis using False by (intro exI [of _ 0]) auto
  qed
next
  case (Suc n)
  show ?case
  proof (cases "bit w (Suc n)")
    case True
    have "count_down w (2 ^ Suc n) c = count_down w (2 ^ n) (c + 1)"
      using True bit_test2 [of w "Suc n"] drop_bit_exp [OF Suc.prems]
      by (simp add: count_down.simps [of w "2 ^ Suc n" c] del: power_Suc)
    moreover obtain t where t: "count_down w (2 ^ n) (c + 1) = c + 1 + t" "t \<le> n + 1"
      "\<forall>j. n < j + t \<and> j \<le> n \<longrightarrow> bit w j" "t \<le> n \<longrightarrow> \<not> bit w (n - t)"
      using Suc.IH [of "c + 1"] Suc.prems by auto
    ultimately have "count_down w (2 ^ Suc n) c = c + (t + 1)" by simp
    moreover have "\<forall>j. Suc n < j + (t + 1) \<and> j \<le> Suc n \<longrightarrow> bit w j"
      using t(3) True by (auto simp: le_Suc_eq)
    moreover have "t + 1 \<le> Suc n \<longrightarrow> \<not> bit w (Suc n - (t + 1))" using t(4) by simp
    ultimately show ?thesis using t(2) by (intro exI [of _ "t + 1"]) simp
  next
    case False
    then have "count_down w (2 ^ Suc n) c = c + 0"
      using bit_test2 [of w "Suc n"] by (simp add: count_down.simps [of w "2 ^ Suc n" c] del: power_Suc)
    then show ?thesis using False by (intro exI [of _ 0]) auto
  qed
qed

lemma mask_match_upto: "p < 64 \<Longrightarrow> mask_match w (2 ^ p * 2 - 1) = (\<forall>j. j \<le> p \<longrightarrow> bit w j)"
proof -
  assume p: "p < 64"
  have "(2::size_t) ^ p * 2 - 1 = mask (Suc p)" by (simp add: mask_eq_exp_minus_1 mult.commute)
  then show ?thesis using p by (auto simp: mask_match_iff bit_mask_iff less_Suc_eq_le)
qed

lemma word_pos: "0 \<le> l \<Longrightarrow> l = int (nat l div 64 * 64) + int (nat l mod 64)"
  by (simp add: zdiv_int zmod_int)

lemma same_word_below:
  assumes "0 \<le> l" "j \<le> l" "l - int (nat l mod 64) \<le> j"
  shows "0 \<le> j" "nat j div 64 = nat l div 64" and "nat j mod 64 \<le> nat l mod 64"
proof -
  have l: "l = int (nat l div 64 * 64) + int (nat l mod 64)" using assms(1) by (rule word_pos)
  then have "int (nat l div 64 * 64) \<le> j" using assms(3) by linarith
  then show j0: "0 \<le> j" by linarith
  obtain ln jn where ln: "l = int ln" and jn: "j = int jn"
    using assms(1) j0 by (metis nonneg_int_cases)
  have "ln = 64 * (ln div 64) + ln mod 64" by simp
  moreover have "jn \<le> ln" "ln - ln mod 64 \<le> jn" using assms ln jn by auto
  ultimately have b: "64 * (ln div 64) \<le> jn" "jn < 64 * (ln div 64) + 64"
    by linarith+
  then have d: "jn div 64 = ln div 64"
    by (metis add.commute div_nat_eqI mult.commute mult_Suc_right)
  then show "nat j div 64 = nat l div 64" using ln jn by simp
  have "jn = 64 * (jn div 64) + jn mod 64" "ln = 64 * (ln div 64) + ln mod 64" by simp_all
  then have "jn mod 64 \<le> ln mod 64" using \<open>jn \<le> ln\<close> d by (metis add_le_cancel_left)
  then show "nat j mod 64 \<le> nat l mod 64" using ln jn by simp
qed

lemma count_trailing_ones_spec:
  "count_trailing_ones dbg bm l = Inr t \<Longrightarrow>
     int t \<le> l \<and> l < num_bits bm \<and> (\<forall>j. l - int t < j \<and> j \<le> l \<longrightarrow> bit_at bm j) \<and>
     \<not> bit_at bm (l - int t)"
proof (induction dbg bm l arbitrary: t rule: count_trailing_ones.induct)
  case (1 dbg bm l)
  have rng: "in_range bm l" using 1(2)
    by (auto simp: count_trailing_ones.simps [of dbg bm l] split: if_splits)
  then have l0: "0 \<le> l" and lN: "l < num_bits bm" by (simp_all add: in_range_def)
  define a where "a = nat l div 64"
  define p where "p = nat l mod 64"
  define w where "w = bitmap bm a"
  have p64: "p < 64" by (simp add: p_def)
  have l_eq: "l = int (a * 64) + int p" using word_pos [OF l0] by (simp add: a_def p_def)
  have inword: "bit_at bm j = bit w (nat j mod 64) \<and> nat j mod 64 \<le> p \<and> int (nat j mod 64) = j - int (a * 64)"
    if "j \<le> l" "l - int p \<le> j" for j
  proof -
    have j0: "0 \<le> j" and d: "nat j div 64 = a" and m: "nat j mod 64 \<le> p"
      using same_word_below [OF l0 that(1)] that(2) by (simp_all add: a_def p_def)
    have "nat j = 64 * (nat j div 64) + nat j mod 64" by simp
    then have "int (nat j) = int (64 * a) + int (nat j mod 64)" using d by (metis of_nat_add)
    then show ?thesis using j0 d m by (simp add: bit_at_def w_def)
  qed
  show ?case
  proof (cases "mask_match w (2 ^ p * 2 - 1)")
    case True
    then have allset: "\<forall>j. j \<le> p \<longrightarrow> bit w j" using mask_match_upto [OF p64] by simp
    obtain n where n: "count_trailing_ones dbg bm (l - int (p + 1)) = Inr n" and t: "t = p + 1 + n"
      using 1(2) rng True
      by (auto simp: count_trailing_ones.simps [of dbg bm l] Let_def a_def p_def w_def mult.commute
               split: if_splits sum.splits)
    have ih: "int n \<le> l - int (p + 1) \<and> l - int (p + 1) < num_bits bm \<and>
          (\<forall>j. l - int (p + 1) - int n < j \<and> j \<le> l - int (p + 1) \<longrightarrow> bit_at bm j) \<and>
          \<not> bit_at bm (l - int (p + 1) - int n)"
      using 1(1) [OF _ refl refl refl refl refl _ refl n [unfolded p_def]] rng True
      by (simp add: a_def p_def w_def mult.commute)
    have upper: "bit_at bm j" if "l - int (p + 1) < j" "j \<le> l" for j
      using inword [of j] that allset by simp
    have "bit_at bm j" if "l - int t < j" "j \<le> l" for j
    proof (cases "l - int (p + 1) < j")
      case True then show ?thesis using upper that by simp
    next
      case False then show ?thesis using ih that t by simp
    qed
    then show ?thesis using ih t lN by (simp add: algebra_simps)
  next
    case False
    then have t: "t = count_down w (2 ^ p) 0"
      using 1(2) rng
      by (auto simp: count_trailing_ones.simps [of dbg bm l] Let_def a_def p_def w_def mult.commute
               split: if_splits sum.splits)
    obtain t' where t': "count_down w (2 ^ p) 0 = 0 + t'" "t' \<le> p + 1"
       "\<forall>j. p < j + t' \<and> j \<le> p \<longrightarrow> bit w j" "t' \<le> p \<longrightarrow> \<not> bit w (p - t')"
      using count_down_spec [OF p64, of w 0] by blast
    have tt: "t = t'" using t t'(1) by simp
    have tp: "t \<le> p"
    proof (rule ccontr)
      assume "\<not> t \<le> p"
      then have "t' = p + 1" using t'(2) tt by simp
      then have "\<forall>j. j \<le> p \<longrightarrow> bit w j" using t'(3) by simp
      then show False using False mask_match_upto [OF p64] by simp
    qed
    have z: "\<not> bit_at bm (l - int t)"
    proof -
      have "int (nat (l - int t) mod 64) = l - int t - int (a * 64)"
        using inword [of "l - int t"] tp by simp
      also have "\<dots> = int (p - t)" using tp l_eq by (simp add: of_nat_diff)
      finally have "nat (l - int t) mod 64 = p - t" by (simp only: of_nat_eq_iff)
      then show ?thesis using inword [of "l - int t"] tp t'(4) tt by simp
    qed
    have ones: "bit_at bm j" if "l - int t < j" "j \<le> l" for j
    proof -
      have i: "bit_at bm j = bit w (nat j mod 64)" "nat j mod 64 \<le> p" "int (nat j mod 64) = j - int (a * 64)"
        using inword [of j] that tp by simp_all
      then have "p < nat j mod 64 + t'" using that(1) l_eq tt by linarith
      then show ?thesis using t'(3) i by simp
    qed
    show ?thesis using z ones tp l_eq lN by auto
  qed
qed

subsection \<open>The forward run search\<close>

text \<open>
  The \<^verbatim>\<open>while (start_idx <= start_boundary)\<close> of \<^verbatim>\<open>find_next_consecutive_bits\<close>, with
  the four variables the loop updates. The run length \<^verbatim>\<open>num_bits\<close> is called \<open>nbits\<close>
  here, \<open>num_bits\<close> being the field \<^verbatim>\<open>_num_bits\<close> of the bit map. \<^verbatim>\<open>start_idx\<close> is an
  \<^verbatim>\<open>ssize_t\<close> and everything added to it a \<^verbatim>\<open>size_t\<close>: the sum is computed in
  \<^verbatim>\<open>size_t\<close> and read back as \<^verbatim>\<open>ssize_t\<close> (\<open>sint\<close>), and \<^verbatim>\<open>start_idx / 64\<close> and
  \<^verbatim>\<open>start_idx % 64\<close> are the unsigned division of the same word. Nothing in the code bounds
  the number of iterations, so the loop is a partial function: \<open>None\<close> is a search that
  does not return.
\<close>

partial_function (option) find_next_consecutive_bits_loop ::
  "bool \<Rightarrow> ShenandoahSimpleBitMap \<Rightarrow> size_t \<Rightarrow> int \<Rightarrow> int \<Rightarrow> int \<Rightarrow> size_t \<Rightarrow> size_t \<Rightarrow> size_t
     \<Rightarrow> (vm_error + int) option" where
  "find_next_consecutive_bits_loop dbg bm nbits boundary_idx start_boundary
       start_idx array_idx bit_number element_bits =
     (if start_idx \<le> start_boundary then
        (if element_bits = 0 then
           find_next_consecutive_bits_loop dbg bm nbits boundary_idx start_boundary
             (sint (word_of_int start_idx + (64 - bit_number))) (array_idx + 1) 0
             (bitmap bm (unat (array_idx + 1)))
         else
           (case is_forward_consecutive_ones dbg bm start_idx (sint nbits) of
              Inl e \<Rightarrow> Some (Inl e)
            | Inr found \<Rightarrow>
                if found then Some (Inr start_idx)
                else
                  (case count_trailing_ones dbg bm (sint (word_of_int start_idx + nbits - 1)) of
                     Inl e \<Rightarrow> Some (Inl e)
                   | Inr trailing_ones \<Rightarrow>
                       (let new_start = word_of_int start_idx + (nbits - of_nat trailing_ones);
                            array_idx' = new_start div 64;
                            bit_number' = new_start mod 64;
                            element_bits' =
                              mask_out_below (bitmap bm (unat array_idx')) (unat bit_number')
                        in find_next_consecutive_bits_loop dbg bm nbits boundary_idx
                             start_boundary (sint new_start) array_idx' bit_number'
                             element_bits'))))
      else Some (Inr boundary_idx))"

declare find_next_consecutive_bits_loop.simps [code]

text \<open>
  \<^verbatim>\<open>find_next_consecutive_bits(num_bits, start_idx, boundary_idx)\<close>.
  \<^verbatim>\<open>boundary_idx - num_bits\<close> is computed in \<^verbatim>\<open>size_t\<close> and read back as \<^verbatim>\<open>ssize_t\<close>.
\<close>

definition find_next_consecutive_bits ::
  "bool \<Rightarrow> ShenandoahSimpleBitMap \<Rightarrow> size_t \<Rightarrow> int \<Rightarrow> int \<Rightarrow> (vm_error + int) option" where
  "find_next_consecutive_bits dbg bm nbits start_idx boundary_idx =
     (if \<not> in_range bm start_idx then Some (Inl (idx_error dbg))
      else let start_boundary = sint (word_of_int boundary_idx - nbits);
               array_idx = word_of_int start_idx div 64;
               bit_number = word_of_int start_idx mod 64;
               element_bits = mask_out_below (bitmap bm (unat array_idx)) (unat bit_number)
           in find_next_consecutive_bits_loop dbg bm nbits boundary_idx start_boundary
                start_idx array_idx bit_number element_bits)"

text \<open>
  Four bit maps for the examples: eight bits of which 2, 3, 5 and 6 are set; one word of
  which only the last bit, 63, is set; two words of which the bits 63 and 64 are set; and
  two words of which the bits 65 and 66 are set.
\<close>

definition example_bitmap :: ShenandoahSimpleBitMap where
  "example_bitmap = \<lparr>num_bits = 8, bitmap_words = [108], beyond = (\<lambda>_. 0)\<rparr>"

definition last_bit_bitmap :: ShenandoahSimpleBitMap where
  "last_bit_bitmap =
     \<lparr>num_bits = 64, bitmap_words = [0x8000000000000000], beyond = (\<lambda>_. 0)\<rparr>"

definition boundary_run_bitmap :: ShenandoahSimpleBitMap where
  "boundary_run_bitmap =
     \<lparr>num_bits = 128, bitmap_words = [0x8000000000000000, 1], beyond = (\<lambda>_. 0)\<rparr>"

definition second_word_bitmap :: ShenandoahSimpleBitMap where
  "second_word_bitmap = \<lparr>num_bits = 128, bitmap_words = [0, 6], beyond = (\<lambda>_. 0)\<rparr>"

lemma last_bit_search:
  "find_next_consecutive_bits True last_bit_bitmap 2 62 64 = Some (Inr 62)"
  "find_next_consecutive_bits False last_bit_bitmap 2 62 64 = Some (Inr 62)"
  by code_simp+

lemma last_bit_bits: "\<not> bit_at last_bit_bitmap 62" "bit_at last_bit_bitmap 63"
  by code_simp+

lemma boundary_run_search:
  "find_next_consecutive_bits True boundary_run_bitmap 2 0 128 = Some (Inr 62)"
  "find_next_consecutive_bits False boundary_run_bitmap 2 0 128 = Some (Inr 62)"
  by code_simp+

lemma boundary_run_bits:
  "\<not> bit_at boundary_run_bitmap 62" "bit_at boundary_run_bitmap 63" "bit_at boundary_run_bitmap 64"
  by code_simp+

lemma zero_length_search:
  "find_next_consecutive_bits True example_bitmap 0 0 8 = Some (Inr 0)"
  "find_next_consecutive_bits False example_bitmap 0 0 8 = Some (Inr 0)"
  by code_simp+

lemma inner_search:
  "find_next_consecutive_bits True example_bitmap 2 0 8 = Some (Inr 2)"
  "find_next_consecutive_bits False example_bitmap 2 0 8 = Some (Inr 2)"
  "find_next_consecutive_bits True example_bitmap 3 0 8 = Some (Inr 8)"
  "find_next_consecutive_bits False example_bitmap 3 0 8 = Some (Inr 8)"
  by code_simp+

lemma later_search:
  "find_next_consecutive_bits True boundary_run_bitmap 2 63 128 = Some (Inr 63)"
  "find_next_consecutive_bits False boundary_run_bitmap 2 63 128 = Some (Inr 63)"
  "find_next_consecutive_bits True second_word_bitmap 2 0 128 = Some (Inr 65)"
  "find_next_consecutive_bits False second_word_bitmap 2 0 128 = Some (Inr 65)"
  by code_simp+

text \<open>
  Claim C3: \<^verbatim>\<open>find_next_consecutive_bits(k, start, end)\<close> returns the first index of a run
  of \<open>k\<close> set bits inside \<open>[start, end)\<close>, and \<open>end\<close> when there is none or when \<open>k = 0\<close>.
  The code does not. A probe \<open>[i, i + k)\<close> that ends on a word boundary makes
  \<^verbatim>\<open>is_forward_consecutive_ones\<close> shift by 64; the mask it compares against is then empty
  and the probe is accepted whatever its bits are. In a map of 64 bits of which only bit
  63 is set, the search for a run of 2 bits in \<open>[62, 64)\<close> returns 62, whose bit is clear,
  where there is no run and \<open>end = 64\<close> is due. In a map of 128 bits of which the bits 63
  and 64 are set, the search for a run of 2 bits in \<open>[0, 128)\<close> returns 62 again, where the
  first run is at 63. No assertion fails, and a debug and a product build agree. For
  \<open>k = 0\<close> the mask is empty as well: with the bits 2, 3, 5 and 6 of an 8-bit map set,
  the search in \<open>[0, 8)\<close> returns 0, not \<open>end = 8\<close>. The searches whose probes do not end
  on a word boundary answer as claimed: in the 8-bit map the first run of 2 bits is at 2
  and there is no run of 3; from 63 on, the run of the bits 63 and 64 is found across the
  two words; and the run of the bits 65 and 66 is found after the empty first word.
\<close>

theorem find_next_consecutive_bits_word_boundary:
  "find_next_consecutive_bits dbg last_bit_bitmap 2 62 64 = Some (Inr 62) \<and>
   \<not> bit_at last_bit_bitmap 62 \<and> bit_at last_bit_bitmap 63 \<and>
   find_next_consecutive_bits dbg boundary_run_bitmap 2 0 128 = Some (Inr 62) \<and>
   \<not> bit_at boundary_run_bitmap 62 \<and> bit_at boundary_run_bitmap 63 \<and>
   bit_at boundary_run_bitmap 64 \<and>
   find_next_consecutive_bits dbg example_bitmap 0 0 8 = Some (Inr 0) \<and>
   find_next_consecutive_bits dbg example_bitmap 2 0 8 = Some (Inr 2) \<and>
   find_next_consecutive_bits dbg example_bitmap 3 0 8 = Some (Inr 8) \<and>
   find_next_consecutive_bits dbg boundary_run_bitmap 2 63 128 = Some (Inr 63) \<and>
   find_next_consecutive_bits dbg second_word_bitmap 2 0 128 = Some (Inr 65)"
  by (cases dbg)
     (simp_all only: last_bit_search last_bit_bits boundary_run_search boundary_run_bits
        zero_length_search inner_search later_search simp_thms)

section \<open>ShenandoahRegionPartitions\<close>

text \<open>
  \<^verbatim>\<open>ShenandoahFreeSetPartitionId\<close> has the values \<^verbatim>\<open>Mutator\<close>, \<^verbatim>\<open>Collector\<close> and
  \<^verbatim>\<open>NotFree\<close>, and \<^verbatim>\<open>NumPartitions\<close> is \<^verbatim>\<open>NotFree\<close>: the arrays of the partition table
  have the two entries \<^verbatim>\<open>Mutator\<close> and \<^verbatim>\<open>Collector\<close>, and every function that takes a
  partition starts with \<^verbatim>\<open>assert (which_partition < NumPartitions)\<close>. The model's type has
  the two tracked partitions only, so that assertion holds by typing; \<^verbatim>\<open>NotFree\<close> appears
  as the answer \<open>None\<close> of \<open>membership_of\<close>.
\<close>

datatype ShenandoahFreeSetPartitionId = Mutator | Collector

record ShenandoahRegionPartitions =
  max_regions :: int
  region_size_bytes :: size_t
  membership :: "ShenandoahFreeSetPartitionId \<Rightarrow> ShenandoahSimpleBitMap"
  leftmosts :: "ShenandoahFreeSetPartitionId \<Rightarrow> int"
  rightmosts :: "ShenandoahFreeSetPartitionId \<Rightarrow> int"
  leftmosts_empty :: "ShenandoahFreeSetPartitionId \<Rightarrow> int"
  rightmosts_empty :: "ShenandoahFreeSetPartitionId \<Rightarrow> int"
  capacity :: "ShenandoahFreeSetPartitionId \<Rightarrow> size_t"
  used :: "ShenandoahFreeSetPartitionId \<Rightarrow> size_t"
  region_counts :: "ShenandoahFreeSetPartitionId \<Rightarrow> size_t"

text \<open>
  The partition table reaches the regions through \<^verbatim>\<open>_free_set->alloc_capacity(idx)\<close> only.
  Its functions take that query as the argument \<open>ac\<close>; the free set passes its own
  \<open>alloc_capacity_idx\<close> over the current heap.
\<close>

text \<open>
  For evaluation, an update of an array indexed by the partition is computed at once, so
  that the arrays of a concrete table stay two values.
\<close>

lemma partition_array_update [code_unfold]:
  "f(p := v) =
     (case p of Mutator \<Rightarrow> case_ShenandoahFreeSetPartitionId v (f Collector)
              | Collector \<Rightarrow> case_ShenandoahFreeSetPartitionId (f Mutator) v)"
  by (auto simp: fun_eq_iff split: ShenandoahFreeSetPartitionId.splits)

type_synonym capacity_query = "int \<Rightarrow> vm_error + size_t"

definition leftmost :: "ShenandoahRegionPartitions \<Rightarrow> ShenandoahFreeSetPartitionId \<Rightarrow> int" where
  "leftmost s which_partition =
     (let idx = leftmosts s which_partition
      in if idx \<ge> max_regions s then max_regions s else idx)"

definition rightmost :: "ShenandoahRegionPartitions \<Rightarrow> ShenandoahFreeSetPartitionId \<Rightarrow> int" where
  "rightmost s which_partition = rightmosts s which_partition"

text \<open>
  \<^verbatim>\<open>make_all_regions_unavailable\<close> loops over the two partitions; \<open>reset_partition\<close> is
  the body of that loop.
\<close>

definition reset_partition ::
  "ShenandoahRegionPartitions \<Rightarrow> ShenandoahFreeSetPartitionId \<Rightarrow> ShenandoahRegionPartitions" where
  "reset_partition s partition_id =
     s\<lparr>membership := (membership s)(partition_id := clear_all (membership s partition_id)),
       leftmosts := (leftmosts s)(partition_id := max_regions s),
       rightmosts := (rightmosts s)(partition_id := - 1),
       leftmosts_empty := (leftmosts_empty s)(partition_id := max_regions s),
       rightmosts_empty := (rightmosts_empty s)(partition_id := - 1),
       capacity := (capacity s)(partition_id := 0),
       used := (used s)(partition_id := 0)\<rparr>"

definition make_all_regions_unavailable :: "ShenandoahRegionPartitions \<Rightarrow> ShenandoahRegionPartitions" where
  "make_all_regions_unavailable s =
     (let s1 = reset_partition s Mutator;
          s2 = reset_partition s1 Collector
      in s2\<lparr>region_counts := (region_counts s2)(Mutator := 0, Collector := 0)\<rparr>)"

text \<open>
  The constructor: \<open>mem\<close> gives, for each partition, what the memory of its bit map holds
  when allocated.
\<close>

definition new_partitions ::
  "nat \<Rightarrow> size_t \<Rightarrow> (ShenandoahFreeSetPartitionId \<Rightarrow> nat \<Rightarrow> size_t) \<Rightarrow> ShenandoahRegionPartitions" where
  "new_partitions n rsb mem =
     make_all_regions_unavailable
       \<lparr>max_regions = int n, region_size_bytes = rsb,
        membership = (\<lambda>p. new_bitmap n (mem p)),
        leftmosts = (\<lambda>p. 0), rightmosts = (\<lambda>p. 0),
        leftmosts_empty = (\<lambda>p. 0), rightmosts_empty = (\<lambda>p. 0),
        capacity = (\<lambda>p. 0), used = (\<lambda>p. 0), region_counts = (\<lambda>p. 0)\<rparr>"

definition raw_set_membership ::
  "bool \<Rightarrow> ShenandoahRegionPartitions \<Rightarrow> int \<Rightarrow> ShenandoahFreeSetPartitionId
     \<Rightarrow> vm_error + ShenandoahRegionPartitions" where
  "raw_set_membership dbg s idx p =
     (case set_bit_bm dbg (membership s p) idx of
        Inl e \<Rightarrow> Inl e
      | Inr bm \<Rightarrow> Inr (s\<lparr>membership := (membership s)(p := bm)\<rparr>))"

definition establish_intervals ::
  "ShenandoahRegionPartitions \<Rightarrow> int \<Rightarrow> int \<Rightarrow> int \<Rightarrow> int \<Rightarrow> size_t \<Rightarrow> size_t
     \<Rightarrow> ShenandoahRegionPartitions" where
  "establish_intervals s mutator_leftmost mutator_rightmost mutator_leftmost_empty
       mutator_rightmost_empty mutator_region_count mutator_used =
     s\<lparr>region_counts := (region_counts s)(Mutator := mutator_region_count, Collector := 0),
       leftmosts := (leftmosts s)(Mutator := mutator_leftmost, Collector := max_regions s),
       rightmosts := (rightmosts s)(Mutator := mutator_rightmost, Collector := - 1),
       leftmosts_empty :=
         (leftmosts_empty s)(Mutator := mutator_leftmost_empty, Collector := max_regions s),
       rightmosts_empty := (rightmosts_empty s)(Mutator := mutator_rightmost_empty, Collector := - 1),
       used := (used s)(Mutator := mutator_used, Collector := 0),
       capacity :=
         (capacity s)(Mutator := mutator_region_count * region_size_bytes s, Collector := 0)\<rparr>"

definition increase_used ::
  "bool \<Rightarrow> ShenandoahRegionPartitions \<Rightarrow> ShenandoahFreeSetPartitionId \<Rightarrow> size_t
     \<Rightarrow> vm_error + ShenandoahRegionPartitions" where
  "increase_used dbg s which_partition bytes =
     (let s' = s\<lparr>used := (used s)(which_partition := used s which_partition + bytes)\<rparr>
      in if assert_fails dbg (used s' which_partition \<le> capacity s' which_partition)
         then Inl AssertionFailure else Inr s')"

definition in_free_set ::
  "bool \<Rightarrow> ShenandoahRegionPartitions \<Rightarrow> ShenandoahFreeSetPartitionId \<Rightarrow> int \<Rightarrow> vm_error + bool" where
  "in_free_set dbg s which_partition idx = is_set dbg (membership s which_partition) idx"

text \<open>
  \<^verbatim>\<open>assert (c)\<close> where evaluating \<open>c\<close> can itself fail an assertion: nothing is evaluated
  in a product build.
\<close>

definition assert_that :: "bool \<Rightarrow> vm_error + bool \<Rightarrow> vm_error option" where
  "assert_that dbg c =
     (if dbg then (case c of Inl e \<Rightarrow> Some e
                           | Inr b \<Rightarrow> if b then None else Some AssertionFailure)
      else None)"

definition is_empty_partition :: "ShenandoahRegionPartitions \<Rightarrow> ShenandoahFreeSetPartitionId \<Rightarrow> bool" where
  "is_empty_partition s which_partition = (leftmost s which_partition > rightmost s which_partition)"

definition find_index_of_next_available_region ::
  "bool \<Rightarrow> ShenandoahRegionPartitions \<Rightarrow> ShenandoahFreeSetPartitionId \<Rightarrow> int \<Rightarrow> vm_error + int" where
  "find_index_of_next_available_region dbg s which_partition start_index =
     (let rightmost_idx = rightmost s which_partition;
          leftmost_idx = leftmost s which_partition
      in if rightmost_idx < leftmost_idx \<or> start_index > rightmost_idx then Inr (max_regions s)
         else let start_index' = (if start_index < leftmost_idx then leftmost_idx else start_index)
              in case find_next_set_bit dbg (membership s which_partition) start_index'
                        (rightmost_idx + 1) of
                   Inl e \<Rightarrow> Inl e
                 | Inr result \<Rightarrow> Inr (if result > rightmost_idx then max_regions s else result))"

definition find_index_of_previous_available_region ::
  "bool \<Rightarrow> ShenandoahRegionPartitions \<Rightarrow> ShenandoahFreeSetPartitionId \<Rightarrow> int \<Rightarrow> vm_error + int" where
  "find_index_of_previous_available_region dbg s which_partition last_index =
     (let rightmost_idx = rightmost s which_partition;
          leftmost_idx = leftmost s which_partition
      in if last_index < leftmost_idx then Inr (- 1)
         else let last_index' = (if last_index > rightmost_idx then rightmost_idx else last_index)
              in case find_prev_set_bit dbg (membership s which_partition) last_index' (- 1) of
                   Inl e \<Rightarrow> Inl e
                 | Inr result \<Rightarrow> Inr (if result < leftmost_idx then - 1 else result))"

definition find_index_of_next_available_cluster_of_regions ::
  "bool \<Rightarrow> ShenandoahRegionPartitions \<Rightarrow> ShenandoahFreeSetPartitionId \<Rightarrow> int \<Rightarrow> size_t
     \<Rightarrow> (vm_error + int) option" where
  "find_index_of_next_available_cluster_of_regions dbg s which_partition start_index cluster_size =
     (let rightmost_idx = rightmost s which_partition;
          leftmost_idx = leftmost s which_partition
      in if rightmost_idx < leftmost_idx \<or> start_index > rightmost_idx
         then Some (Inr (max_regions s))
         else case find_next_consecutive_bits dbg (membership s which_partition) cluster_size
                     start_index (rightmost_idx + 1) of
                None \<Rightarrow> None
              | Some (Inl e) \<Rightarrow> Some (Inl e)
              | Some (Inr result) \<Rightarrow>
                  Some (Inr (if result > rightmost_idx then max_regions s else result)))"

subsection \<open>What the region searches return\<close>

lemma find_prev_set_bit_loop_spec:
  "0 \<le> l \<Longrightarrow> - 1 \<le> b \<Longrightarrow>
   \<exists>r. find_prev_set_bit_loop bm l b = Inr r \<and>
       (r = b \<or> (b < r \<and> r \<le> l \<and> bit_at bm r)) \<and>
       (\<forall>j. r < j \<and> j \<le> l \<longrightarrow> \<not> bit_at bm j)"
proof (induction bm l b rule: find_prev_set_bit_loop.induct)
  case (1 bm l b)
  have l0: "0 \<le> l" and b1: "- 1 \<le> b" using 1(2,3) by simp_all
  define a where "a = nat l div 64"
  define p where "p = nat l mod 64"
  define e where "e = mask_in_upto (bitmap bm a) p"
  have p64: "p < 64" by (simp add: p_def)
  have l_eq: "l = int (a * 64) + int p" using word_pos [OF l0] by (simp add: a_def p_def)
  have e_bit: "bit e j = (bit (bitmap bm a) j \<and> j \<le> p)" for j
    by (simp add: e_def bit_mask_in_upto [OF p64])
  have inword: "bit_at bm j = bit (bitmap bm a) (nat j mod 64) \<and> nat j mod 64 \<le> p \<and>
                  int (nat j mod 64) = j - int (a * 64)"
    if "j \<le> l" "l - int p \<le> j" for j
  proof -
    have j0: "0 \<le> j" and d: "nat j div 64 = a" and m: "nat j mod 64 \<le> p"
      using same_word_below [OF l0 that(1)] that(2) by (simp_all add: a_def p_def)
    have "j = int (nat j div 64 * 64) + int (nat j mod 64)" using word_pos [OF j0] .
    then show ?thesis using d m by (simp add: bit_at_def)
  qed
  show ?case
  proof (cases "e = 0")
    case True
    have nobits: "\<not> bit_at bm j" if "j \<le> l" "l - int p \<le> j" for j
    proof -
      have "\<not> bit e (nat j mod 64)" using True by simp
      then show ?thesis using inword [OF that] e_bit by simp
    qed
    let ?l' = "l - (int p + 1)"
    show ?thesis
    proof (cases "?l' > b")
      case gt: True
      have unf: "find_prev_set_bit_loop bm l b = find_prev_set_bit_loop bm ?l' b"
        using True gt l0 find_prev_set_bit_loop.simps [of bm l b]
        by (simp add: Let_def a_def p_def e_def)
      have l'0: "0 \<le> ?l'" using gt b1 by simp
      obtain r where r: "find_prev_set_bit_loop bm ?l' b = Inr r"
        "r = b \<or> (b < r \<and> r \<le> ?l' \<and> bit_at bm r)"
        "\<forall>j. r < j \<and> j \<le> ?l' \<longrightarrow> \<not> bit_at bm j"
        using 1(1) [OF _ refl refl refl _ refl _ l'0 [unfolded p_def] b1] True gt l0
        by (auto simp: a_def p_def e_def)
      have "\<not> bit_at bm j" if "r < j" "j \<le> l" for j
      proof (cases "j \<le> ?l'")
        case True then show ?thesis using r(3) that(1) by simp
      next
        case False then show ?thesis using nobits [of j] that(2) by simp
      qed
      moreover have "r = b \<or> (b < r \<and> r \<le> l \<and> bit_at bm r)" using r(2) by auto
      ultimately show ?thesis using unf r(1) by simp
    next
      case le: False
      have unf: "find_prev_set_bit_loop bm l b = Inr b"
        using True le l0 find_prev_set_bit_loop.simps [of bm l b]
        by (simp add: Let_def a_def p_def e_def)
      have "\<not> bit_at bm j" if "b < j" "j \<le> l" for j
        using nobits [of j] that le by simp
      then show ?thesis using unf by simp
    qed
  next
    case False
    show ?thesis
    proof (cases "scan_down e (2 ^ p) p")
      case None
      have "\<not> bit e j" for j
      proof (cases "j \<le> p")
        case True then show ?thesis using scan_down_None [OF p64 None] by simp
      next
        case False then show ?thesis using e_bit by simp
      qed
      then have "e = 0" by (simp add: bit_eq_iff)
      with False show ?thesis by simp
    next
      case (Some q)
      from scan_down_Some [OF p64 Some]
      have q: "q \<le> p" "bit e q" "\<forall>j. q < j \<and> j \<le> p \<longrightarrow> \<not> bit e j" by auto
      have q64: "q < 64" using q(1) p64 by simp
      define c where "c = int (a * 64) + int q"
      have c_le: "c \<le> l" using q(1) by (simp add: c_def l_eq)
      have c_bit: "bit_at bm c" using bit_at_word [OF q64, of bm a] q(2) e_bit by (simp add: c_def)
      have above: "\<not> bit_at bm j" if "c < j" "j \<le> l" for j
      proof -
        have lo: "l - int p \<le> j" using that(1) by (simp add: c_def l_eq)
        have i: "bit_at bm j = bit (bitmap bm a) (nat j mod 64)" "nat j mod 64 \<le> p"
            "int (nat j mod 64) = j - int (a * 64)"
          using inword [OF that(2) lo] by simp_all
        have "q < nat j mod 64" using i(3) that(1) by (simp add: c_def)
        then have "\<not> bit e (nat j mod 64)" using q(3) i(2) by simp
        then show ?thesis using i e_bit by simp
      qed
      have unf: "find_prev_set_bit_loop bm l b = (if c > b then Inr c else Inr b)"
        using False Some l0 find_prev_set_bit_loop.simps [of bm l b]
        by (simp add: Let_def a_def p_def e_def c_def)
      show ?thesis
      proof (cases "c > b")
        case True
        then show ?thesis using unf c_le c_bit above by simp
      next
        case False
        then have "\<not> bit_at bm j" if "b < j" "j \<le> l" for j using above [of j] that by simp
        then show ?thesis using unf False by simp
      qed
    qed
  qed
qed

lemma find_next_set_bit_result:
  assumes "find_next_set_bit dbg bm s b = Inr r"
  shows "0 \<le> s" "s < num_bits bm"
    "r = b \<or> (s \<le> r \<and> r < b \<and> bit_at bm r)"
    "\<forall>j. s \<le> j \<and> j < r \<longrightarrow> \<not> bit_at bm j"
proof -
  have rng: "in_range bm s" and l: "find_next_set_bit_loop bm s b = Inr r"
    using assms by (auto simp: find_next_set_bit_def split: if_splits)
  show "0 \<le> s" "s < num_bits bm" using rng by (simp_all add: in_range_def)
  then show "r = b \<or> (s \<le> r \<and> r < b \<and> bit_at bm r)" "\<forall>j. s \<le> j \<and> j < r \<longrightarrow> \<not> bit_at bm j"
    using find_next_set_bit_loop_spec [of s bm b] l by auto
qed

lemma find_prev_set_bit_result:
  assumes "find_prev_set_bit dbg bm l b = Inr r" "- 1 \<le> b"
  shows "0 \<le> l" "l < num_bits bm"
    "r = b \<or> (b < r \<and> r \<le> l \<and> bit_at bm r)"
    "\<forall>j. r < j \<and> j \<le> l \<longrightarrow> \<not> bit_at bm j"
proof -
  have rng: "in_range bm l" and lp: "find_prev_set_bit_loop bm l b = Inr r"
    using assms by (auto simp: find_prev_set_bit_def split: if_splits)
  show "0 \<le> l" "l < num_bits bm" using rng by (simp_all add: in_range_def)
  then show "r = b \<or> (b < r \<and> r \<le> l \<and> bit_at bm r)" "\<forall>j. r < j \<and> j \<le> l \<longrightarrow> \<not> bit_at bm j"
    using find_prev_set_bit_loop_spec [of l b bm] lp assms(2) by auto
qed

lemma find_next_set_bit_total:
  "in_range bm s \<Longrightarrow> s < b \<Longrightarrow> b \<le> num_bits bm \<Longrightarrow> \<exists>r. find_next_set_bit dbg bm s b = Inr r"
  using find_next_set_bit_loop_spec [of s bm b]
  by (auto simp: find_next_set_bit_def in_range_def assert_fails_def)

lemma find_prev_set_bit_total:
  "in_range bm l \<Longrightarrow> - 1 \<le> b \<Longrightarrow> b < l \<Longrightarrow> \<exists>r. find_prev_set_bit dbg bm l b = Inr r"
  using find_prev_set_bit_loop_spec [of l b bm]
  by (auto simp: find_prev_set_bit_def in_range_def assert_fails_def)

lemma find_index_of_next_available_region_result:
  assumes "find_index_of_next_available_region dbg s p start = Inr r"
  shows "(r = max_regions s \<and>
            (\<forall>j. start \<le> j \<and> leftmost s p \<le> j \<and> j \<le> rightmost s p \<longrightarrow> \<not> bit_at (membership s p) j))
         \<or> (start \<le> r \<and> leftmost s p \<le> r \<and> r \<le> rightmost s p \<and> bit_at (membership s p) r \<and>
            (\<forall>j. start \<le> j \<and> leftmost s p \<le> j \<and> j < r \<longrightarrow> \<not> bit_at (membership s p) j))"
proof (cases "rightmost s p < leftmost s p \<or> start > rightmost s p")
  case True
  then have "r = max_regions s" using assms
    by (auto simp: find_index_of_next_available_region_def Let_def)
  moreover have "\<not> (start \<le> j \<and> leftmost s p \<le> j \<and> j \<le> rightmost s p)" for j
    using True by linarith
  ultimately show ?thesis by blast
next
  case False
  define st where "st = (if start < leftmost s p then leftmost s p else start)"
  obtain res where res: "find_next_set_bit dbg (membership s p) st (rightmost s p + 1) = Inr res"
    and r: "r = (if res > rightmost s p then max_regions s else res)"
    using assms False
    by (auto simp: find_index_of_next_available_region_def Let_def st_def split: sum.splits)
  note fr = find_next_set_bit_result [OF res]
  have st: "start \<le> st" "leftmost s p \<le> st" by (simp_all add: st_def)
  have st_iff: "st \<le> j \<longleftrightarrow> start \<le> j \<and> leftmost s p \<le> j" for j by (auto simp: st_def)
  show ?thesis
  proof (cases "res > rightmost s p")
    case True
    then have "res = rightmost s p + 1" using fr(3) by linarith
    then have "\<forall>j. st \<le> j \<and> j \<le> rightmost s p \<longrightarrow> \<not> bit_at (membership s p) j"
      using fr(4) by simp
    then have "\<forall>j. start \<le> j \<and> leftmost s p \<le> j \<and> j \<le> rightmost s p \<longrightarrow> \<not> bit_at (membership s p) j"
      using st_iff by simp
    then show ?thesis using r True by simp
  next
    case False
    then have "r = res" using r by simp
    moreover have "st \<le> res" "res < rightmost s p + 1" "bit_at (membership s p) res"
      using fr(3) False by auto
    moreover have "\<forall>j. start \<le> j \<and> leftmost s p \<le> j \<and> j < res \<longrightarrow> \<not> bit_at (membership s p) j"
      using fr(4) st_iff by simp
    ultimately show ?thesis using st by simp
  qed
qed

lemma find_index_of_next_available_region_ge:
  "find_index_of_next_available_region dbg s p start = Inr r \<Longrightarrow> r = max_regions s \<or> start \<le> r"
  using find_index_of_next_available_region_result [of dbg s p start r] by blast

lemma find_index_of_previous_available_region_result:
  assumes "find_index_of_previous_available_region dbg s p lst = Inr r"
  shows "(r = - 1 \<and>
            (\<forall>j. 0 \<le> j \<and> j \<le> lst \<and> leftmost s p \<le> j \<and> j \<le> rightmost s p \<longrightarrow>
                 \<not> bit_at (membership s p) j))
         \<or> (r \<le> lst \<and> leftmost s p \<le> r \<and> r \<le> rightmost s p \<and> bit_at (membership s p) r \<and>
            (\<forall>j. r < j \<and> j \<le> lst \<and> j \<le> rightmost s p \<longrightarrow> \<not> bit_at (membership s p) j))"
proof (cases "lst < leftmost s p")
  case True
  then have "r = - 1" using assms
    by (auto simp: find_index_of_previous_available_region_def Let_def)
  moreover have "\<not> (j \<le> lst \<and> leftmost s p \<le> j \<and> j \<le> rightmost s p)" for j
    using True by linarith
  ultimately show ?thesis by blast
next
  case False
  define la where "la = (if lst > rightmost s p then rightmost s p else lst)"
  obtain res where res: "find_prev_set_bit dbg (membership s p) la (- 1) = Inr res"
    and r: "r = (if res < leftmost s p then - 1 else res)"
    using assms False
    by (auto simp: find_index_of_previous_available_region_def Let_def la_def split: sum.splits)
  note fr = find_prev_set_bit_result [OF res]
  have la_iff: "j \<le> la \<longleftrightarrow> j \<le> lst \<and> j \<le> rightmost s p" for j by (auto simp: la_def)
  have above: "\<forall>j. res < j \<and> j \<le> lst \<and> j \<le> rightmost s p \<longrightarrow> \<not> bit_at (membership s p) j"
    using fr(4) la_iff by simp
  show ?thesis
  proof (cases "res < leftmost s p")
    case True
    then have "\<forall>j. j \<le> lst \<and> leftmost s p \<le> j \<and> j \<le> rightmost s p \<longrightarrow> \<not> bit_at (membership s p) j"
      using above by auto
    then show ?thesis using r True by simp
  next
    case nl: False
    then have rr: "r = res" using r by simp
    show ?thesis
    proof (cases "res = - 1")
      case True
      then have "\<forall>j. 0 \<le> j \<and> j \<le> lst \<and> leftmost s p \<le> j \<and> j \<le> rightmost s p \<longrightarrow>
                 \<not> bit_at (membership s p) j"
        using above by simp
      then show ?thesis using rr True by blast
    next
      case False
      then have "res \<le> la" "bit_at (membership s p) res" using fr(3) by auto
      then show ?thesis using rr nl above la_iff by simp
    qed
  qed
qed

lemma find_index_of_previous_available_region_le:
  "find_index_of_previous_available_region dbg s p lst = Inr r \<Longrightarrow> r = - 1 \<or> r \<le> lst"
  using find_index_of_previous_available_region_result [of dbg s p lst r] by blast

subsection \<open>The bounds of the empty regions\<close>

text \<open>
  The \<^verbatim>\<open>for\<close> loop of \<^verbatim>\<open>leftmost_empty\<close>, entered with the first candidate \<open>idx\<close>. It
  returns the bound and the table with the memoized bound.
\<close>

function leftmost_empty_loop ::
  "bool \<Rightarrow> capacity_query \<Rightarrow> ShenandoahRegionPartitions \<Rightarrow> ShenandoahFreeSetPartitionId \<Rightarrow> int
     \<Rightarrow> vm_error + int \<times> ShenandoahRegionPartitions" where
  "leftmost_empty_loop dbg ac s which_partition idx =
     (if idx < max_regions s then
        (case assert_that dbg (in_free_set dbg s which_partition idx) of
           Some e \<Rightarrow> Inl e
         | None \<Rightarrow>
             (case ac idx of
                Inl e \<Rightarrow> Inl e
              | Inr c \<Rightarrow>
                  if c = region_size_bytes s
                  then Inr (idx, s\<lparr>leftmosts_empty := (leftmosts_empty s)(which_partition := idx)\<rparr>)
                  else (case find_index_of_next_available_region dbg s which_partition (idx + 1) of
                          Inl e \<Rightarrow> Inl e
                        | Inr idx' \<Rightarrow> leftmost_empty_loop dbg ac s which_partition idx')))
      else Inr (max_regions s,
                s\<lparr>leftmosts_empty := (leftmosts_empty s)(which_partition := max_regions s),
                  rightmosts_empty := (rightmosts_empty s)(which_partition := - 1)\<rparr>))"
  by pat_completeness auto
termination
proof (relation "measure (\<lambda>(dbg, ac, s, p, idx). nat (max_regions s - idx))", goal_cases)
  case 1
  show ?case by simp
next
  case (2 dbg ac s which_partition idx c idx')
  then have "idx' = max_regions s \<or> idx + 1 \<le> idx'"
    using find_index_of_next_available_region_ge by blast
  with 2 show ?case by auto
qed

declare leftmost_empty_loop.simps [simp del]

definition leftmost_empty ::
  "bool \<Rightarrow> capacity_query \<Rightarrow> ShenandoahRegionPartitions \<Rightarrow> ShenandoahFreeSetPartitionId
     \<Rightarrow> vm_error + int \<times> ShenandoahRegionPartitions" where
  "leftmost_empty dbg ac s which_partition =
     (if leftmosts_empty s which_partition = max_regions s then Inr (max_regions s, s)
      else case find_index_of_next_available_region dbg s which_partition
                  (leftmosts_empty s which_partition) of
             Inl e \<Rightarrow> Inl e
           | Inr idx \<Rightarrow> leftmost_empty_loop dbg ac s which_partition idx)"

function rightmost_empty_loop ::
  "bool \<Rightarrow> capacity_query \<Rightarrow> ShenandoahRegionPartitions \<Rightarrow> ShenandoahFreeSetPartitionId \<Rightarrow> int
     \<Rightarrow> vm_error + int \<times> ShenandoahRegionPartitions" where
  "rightmost_empty_loop dbg ac s which_partition idx =
     (if idx \<ge> 0 then
        (case assert_that dbg (in_free_set dbg s which_partition idx) of
           Some e \<Rightarrow> Inl e
         | None \<Rightarrow>
             (case ac idx of
                Inl e \<Rightarrow> Inl e
              | Inr c \<Rightarrow>
                  if c = region_size_bytes s
                  then Inr (idx, s\<lparr>rightmosts_empty := (rightmosts_empty s)(which_partition := idx)\<rparr>)
                  else (case find_index_of_previous_available_region dbg s which_partition (idx - 1) of
                          Inl e \<Rightarrow> Inl e
                        | Inr idx' \<Rightarrow> rightmost_empty_loop dbg ac s which_partition idx')))
      else Inr (- 1,
                s\<lparr>leftmosts_empty := (leftmosts_empty s)(which_partition := max_regions s),
                  rightmosts_empty := (rightmosts_empty s)(which_partition := - 1)\<rparr>))"
  by pat_completeness auto
termination
proof (relation "measure (\<lambda>(dbg, ac, s, p, idx). nat (idx + 1))", goal_cases)
  case 1
  show ?case by simp
next
  case (2 dbg ac s which_partition idx c idx')
  then have "idx' = - 1 \<or> idx' \<le> idx - 1"
    using find_index_of_previous_available_region_le by blast
  with 2 show ?case by auto
qed

declare rightmost_empty_loop.simps [simp del]

definition rightmost_empty ::
  "bool \<Rightarrow> capacity_query \<Rightarrow> ShenandoahRegionPartitions \<Rightarrow> ShenandoahFreeSetPartitionId
     \<Rightarrow> vm_error + int \<times> ShenandoahRegionPartitions" where
  "rightmost_empty dbg ac s which_partition =
     (if rightmosts_empty s which_partition < 0 then Inr (- 1, s)
      else case find_index_of_previous_available_region dbg s which_partition
                  (rightmosts_empty s which_partition) of
             Inl e \<Rightarrow> Inl e
           | Inr idx \<Rightarrow> rightmost_empty_loop dbg ac s which_partition idx)"

subsection \<open>Shrinking and expanding the intervals\<close>

text \<open>
  \<^verbatim>\<open>shrink_interval_if_boundary_modified\<close> and
  \<^verbatim>\<open>shrink_interval_if_range_modifies_either_boundary\<close> consist of the same three blocks, the
  first function with \<open>low_idx = high_idx = idx\<close>: the block for the low boundary, the
  block for the high boundary, and the reset to the canonical empty intervals. Note that the
  comparisons call the scanning \<^verbatim>\<open>leftmost_empty\<close> and \<^verbatim>\<open>rightmost_empty\<close>, which update
  the table.
\<close>

definition shrink_low_boundary ::
  "bool \<Rightarrow> capacity_query \<Rightarrow> ShenandoahRegionPartitions \<Rightarrow> ShenandoahFreeSetPartitionId \<Rightarrow> int
     \<Rightarrow> int \<Rightarrow> vm_error + ShenandoahRegionPartitions" where
  "shrink_low_boundary dbg ac s partition_id low_idx high_idx =
     (if low_idx = leftmost s partition_id then
        (case assert_that dbg (map_sum id Not (is_set dbg (membership s partition_id) low_idx)) of
           Some e \<Rightarrow> Inl e
         | None \<Rightarrow>
             (case (if high_idx + 1 = max_regions s then Inr (max_regions s)
                    else find_index_of_next_available_region dbg s partition_id (high_idx + 1)) of
                Inl e \<Rightarrow> Inl e
              | Inr new_leftmost \<Rightarrow>
                  (let s1 = s\<lparr>leftmosts := (leftmosts s)(partition_id := new_leftmost)\<rparr>
                   in case leftmost_empty dbg ac s1 partition_id of
                        Inl e \<Rightarrow> Inl e
                      | Inr (le, s2) \<Rightarrow>
                          if le < leftmost s2 partition_id
                          then Inr (s2\<lparr>leftmosts_empty :=
                                        (leftmosts_empty s2)(partition_id := leftmost s2 partition_id)\<rparr>)
                          else Inr s2)))
      else Inr s)"

definition shrink_high_boundary ::
  "bool \<Rightarrow> capacity_query \<Rightarrow> ShenandoahRegionPartitions \<Rightarrow> ShenandoahFreeSetPartitionId \<Rightarrow> int
     \<Rightarrow> int \<Rightarrow> vm_error + ShenandoahRegionPartitions" where
  "shrink_high_boundary dbg ac s partition_id low_idx high_idx =
     (if high_idx = rightmost s partition_id then
        (case assert_that dbg (map_sum id Not (is_set dbg (membership s partition_id) high_idx)) of
           Some e \<Rightarrow> Inl e
         | None \<Rightarrow>
             (case (if low_idx = 0 then Inr (- 1)
                    else find_index_of_previous_available_region dbg s partition_id (low_idx - 1)) of
                Inl e \<Rightarrow> Inl e
              | Inr new_rightmost \<Rightarrow>
                  (let s1 = s\<lparr>rightmosts := (rightmosts s)(partition_id := new_rightmost)\<rparr>
                   in case rightmost_empty dbg ac s1 partition_id of
                        Inl e \<Rightarrow> Inl e
                      | Inr (re, s2) \<Rightarrow>
                          if re > rightmost s2 partition_id
                          then Inr (s2\<lparr>rightmosts_empty :=
                                        (rightmosts_empty s2)(partition_id := rightmost s2 partition_id)\<rparr>)
                          else Inr s2)))
      else Inr s)"

definition reset_if_interval_empty ::
  "ShenandoahRegionPartitions \<Rightarrow> ShenandoahFreeSetPartitionId \<Rightarrow> ShenandoahRegionPartitions" where
  "reset_if_interval_empty s partition_id =
     (if leftmost s partition_id > rightmost s partition_id
      then s\<lparr>leftmosts := (leftmosts s)(partition_id := max_regions s),
             rightmosts := (rightmosts s)(partition_id := - 1),
             leftmosts_empty := (leftmosts_empty s)(partition_id := max_regions s),
             rightmosts_empty := (rightmosts_empty s)(partition_id := - 1)\<rparr>
      else s)"

definition shrink_interval_if_range_modifies_either_boundary ::
  "bool \<Rightarrow> capacity_query \<Rightarrow> ShenandoahRegionPartitions \<Rightarrow> ShenandoahFreeSetPartitionId \<Rightarrow> int
     \<Rightarrow> int \<Rightarrow> vm_error + ShenandoahRegionPartitions" where
  "shrink_interval_if_range_modifies_either_boundary dbg ac s partition_id low_idx high_idx =
     (if assert_fails dbg (low_idx \<le> high_idx \<and> low_idx \<ge> 0 \<and> high_idx < max_regions s)
      then Inl AssertionFailure
      else case shrink_low_boundary dbg ac s partition_id low_idx high_idx of
             Inl e \<Rightarrow> Inl e
           | Inr s1 \<Rightarrow>
               (case shrink_high_boundary dbg ac s1 partition_id low_idx high_idx of
                  Inl e \<Rightarrow> Inl e
                | Inr s2 \<Rightarrow> Inr (reset_if_interval_empty s2 partition_id)))"

definition shrink_interval_if_boundary_modified ::
  "bool \<Rightarrow> capacity_query \<Rightarrow> ShenandoahRegionPartitions \<Rightarrow> ShenandoahFreeSetPartitionId \<Rightarrow> int
     \<Rightarrow> vm_error + ShenandoahRegionPartitions" where
  "shrink_interval_if_boundary_modified dbg ac s partition_id idx =
     (if assert_fails dbg (idx \<ge> 0 \<and> idx < max_regions s) then Inl AssertionFailure
      else case shrink_low_boundary dbg ac s partition_id idx idx of
             Inl e \<Rightarrow> Inl e
           | Inr s1 \<Rightarrow>
               (case shrink_high_boundary dbg ac s1 partition_id idx idx of
                  Inl e \<Rightarrow> Inl e
                | Inr s2 \<Rightarrow> Inr (reset_if_interval_empty s2 partition_id)))"

definition expand_interval_if_boundary_modified ::
  "bool \<Rightarrow> capacity_query \<Rightarrow> ShenandoahRegionPartitions \<Rightarrow> ShenandoahFreeSetPartitionId \<Rightarrow> int
     \<Rightarrow> size_t \<Rightarrow> vm_error + ShenandoahRegionPartitions" where
  "expand_interval_if_boundary_modified dbg ac s partition_id idx region_available =
     (let s1 = (if leftmost s partition_id > idx
                then s\<lparr>leftmosts := (leftmosts s)(partition_id := idx)\<rparr> else s);
          s2 = (if rightmost s1 partition_id < idx
                then s1\<lparr>rightmosts := (rightmosts s1)(partition_id := idx)\<rparr> else s1)
      in if region_available = region_size_bytes s2 then
           (case leftmost_empty dbg ac s2 partition_id of
              Inl e \<Rightarrow> Inl e
            | Inr (le, s3) \<Rightarrow>
                (let s4 = (if le > idx
                           then s3\<lparr>leftmosts_empty := (leftmosts_empty s3)(partition_id := idx)\<rparr>
                           else s3)
                 in case rightmost_empty dbg ac s4 partition_id of
                      Inl e \<Rightarrow> Inl e
                    | Inr (re, s5) \<Rightarrow>
                        Inr (if re < idx
                             then s5\<lparr>rightmosts_empty := (rightmosts_empty s5)(partition_id := idx)\<rparr>
                             else s5)))
         else Inr s2)"

subsection \<open>Moving regions in and out of the partitions\<close>

text \<open>The \<^verbatim>\<open>for\<close> loop of \<^verbatim>\<open>retire_range_from_partition\<close> that clears the bits.\<close>

function clear_range ::
  "bool \<Rightarrow> ShenandoahRegionPartitions \<Rightarrow> ShenandoahFreeSetPartitionId \<Rightarrow> int \<Rightarrow> int
     \<Rightarrow> vm_error + ShenandoahRegionPartitions" where
  "clear_range dbg s partition_id idx high_idx =
     (if idx \<le> high_idx then
        (case assert_that dbg (in_free_set dbg s partition_id idx) of
           Some e \<Rightarrow> Inl e
         | None \<Rightarrow>
             (case clear_bit_bm dbg (membership s partition_id) idx of
                Inl e \<Rightarrow> Inl e
              | Inr bm \<Rightarrow>
                  clear_range dbg (s\<lparr>membership := (membership s)(partition_id := bm)\<rparr>) partition_id
                    (idx + 1) high_idx))
      else Inr s)"
  by pat_completeness auto
termination
  by (relation "measure (\<lambda>(dbg, s, p, idx, high_idx). nat (high_idx + 1 - idx))") auto

declare clear_range.simps [simp del]

definition retire_range_from_partition ::
  "bool \<Rightarrow> capacity_query \<Rightarrow> ShenandoahRegionPartitions \<Rightarrow> ShenandoahFreeSetPartitionId \<Rightarrow> int
     \<Rightarrow> int \<Rightarrow> vm_error + ShenandoahRegionPartitions" where
  "retire_range_from_partition dbg ac s partition_id low_idx high_idx =
     (if assert_fails dbg (low_idx < max_regions s \<and> high_idx < max_regions s)
      then Inl AssertionFailure
      else case clear_range dbg s partition_id low_idx high_idx of
             Inl e \<Rightarrow> Inl e
           | Inr s1 \<Rightarrow>
               (let s2 = s1\<lparr>region_counts := (region_counts s1)
                             (partition_id := region_counts s1 partition_id
                                           - word_of_int (high_idx + 1 - low_idx))\<rparr>
                in shrink_interval_if_range_modifies_either_boundary dbg ac s2 partition_id
                     low_idx high_idx))"

definition retire_from_partition ::
  "bool \<Rightarrow> capacity_query \<Rightarrow> ShenandoahRegionPartitions \<Rightarrow> ShenandoahFreeSetPartitionId \<Rightarrow> int
     \<Rightarrow> size_t \<Rightarrow> vm_error + ShenandoahRegionPartitions" where
  "retire_from_partition dbg ac s partition_id idx used_bytes =
     (if assert_fails dbg (idx < max_regions s) then Inl AssertionFailure
      else case assert_that dbg (in_free_set dbg s partition_id idx) of
             Some e \<Rightarrow> Inl e
           | None \<Rightarrow>
               (case (if used_bytes < region_size_bytes s
                      then increase_used dbg s partition_id (region_size_bytes s - used_bytes)
                      else Inr s) of
                  Inl e \<Rightarrow> Inl e
                | Inr s1 \<Rightarrow>
                    (case clear_bit_bm dbg (membership s1 partition_id) idx of
                       Inl e \<Rightarrow> Inl e
                     | Inr bm \<Rightarrow>
                         (case shrink_interval_if_boundary_modified dbg ac
                                 (s1\<lparr>membership := (membership s1)(partition_id := bm)\<rparr>)
                                 partition_id idx of
                            Inl e \<Rightarrow> Inl e
                          | Inr s3 \<Rightarrow>
                              Inr (s3\<lparr>region_counts := (region_counts s3)
                                         (partition_id := region_counts s3 partition_id - 1)\<rparr>)))))"

text \<open>
  \<^verbatim>\<open>membership(idx)\<close>, which exists in a debug build only: the partition of region
  \<open>idx\<close>, \<open>None\<close> for \<^verbatim>\<open>NotFree\<close>; it asserts that the region is in one partition at
  most.
\<close>

definition membership_of ::
  "ShenandoahRegionPartitions \<Rightarrow> int \<Rightarrow> vm_error + ShenandoahFreeSetPartitionId option" where
  "membership_of s idx =
     (if \<not> idx < max_regions s then Inl AssertionFailure
      else case is_set True (membership s Mutator) idx of
             Inl e \<Rightarrow> Inl e
           | Inr in_mutator \<Rightarrow>
               (case is_set True (membership s Collector) idx of
                  Inl e \<Rightarrow> Inl e
                | Inr in_collector \<Rightarrow>
                    if in_mutator \<and> in_collector then Inl AssertionFailure
                    else Inr (if in_collector then Some Collector
                              else if in_mutator then Some Mutator else None)))"

definition make_free ::
  "bool \<Rightarrow> capacity_query \<Rightarrow> ShenandoahRegionPartitions \<Rightarrow> int \<Rightarrow> ShenandoahFreeSetPartitionId
     \<Rightarrow> size_t \<Rightarrow> vm_error + ShenandoahRegionPartitions" where
  "make_free dbg ac s idx which_partition available =
     (if assert_fails dbg (idx < max_regions s) then Inl AssertionFailure
      else case assert_that dbg (map_sum id (\<lambda>m. m = None) (membership_of s idx)) of
             Some e \<Rightarrow> Inl e
           | None \<Rightarrow>
               if assert_fails dbg (available \<le> region_size_bytes s) then Inl AssertionFailure
               else
                 (case set_bit_bm dbg (membership s which_partition) idx of
                    Inl e \<Rightarrow> Inl e
                  | Inr bm \<Rightarrow>
                      (let s1 = s\<lparr>membership := (membership s)(which_partition := bm),
                                   capacity := (capacity s)
                                     (which_partition := capacity s which_partition
                                                         + region_size_bytes s),
                                   used := (used s)
                                     (which_partition := used s which_partition
                                                         + (region_size_bytes s - available))\<rparr>
                       in case expand_interval_if_boundary_modified dbg ac s1 which_partition idx
                                 available of
                            Inl e \<Rightarrow> Inl e
                          | Inr s2 \<Rightarrow>
                              Inr (s2\<lparr>region_counts := (region_counts s2)
                                         (which_partition :=
                                            region_counts s2 which_partition + 1)\<rparr>))))"

definition move_from_partition_to_partition ::
  "bool \<Rightarrow> capacity_query \<Rightarrow> ShenandoahRegionPartitions \<Rightarrow> int \<Rightarrow> ShenandoahFreeSetPartitionId
     \<Rightarrow> ShenandoahFreeSetPartitionId \<Rightarrow> size_t \<Rightarrow> vm_error + ShenandoahRegionPartitions" where
  "move_from_partition_to_partition dbg ac s idx orig_partition new_partition available =
     (if assert_fails dbg (idx < max_regions s) then Inl AssertionFailure
      else if assert_fails dbg (available \<le> region_size_bytes s) then Inl AssertionFailure
      else if assert_fails dbg
                ((available \<le> region_size_bytes s \<and>
                    ((orig_partition = Mutator \<and> new_partition = Collector) \<or>
                     (orig_partition = Collector \<and> new_partition = Mutator))) \<or>
                 (available = region_size_bytes s \<and>
                    (orig_partition = Mutator \<and> new_partition = Collector)))
      then Inl AssertionFailure
      else
        (let used_in_region = region_size_bytes s - available
         in case clear_bit_bm dbg (membership s orig_partition) idx of
              Inl e \<Rightarrow> Inl e
            | Inr bm1 \<Rightarrow>
                (let s1 = s\<lparr>membership := (membership s)(orig_partition := bm1)\<rparr>
                 in case set_bit_bm dbg (membership s1 new_partition) idx of
                      Inl e \<Rightarrow> Inl e
                    | Inr bm2 \<Rightarrow>
                        (let s2 = s1\<lparr>membership := (membership s1)(new_partition := bm2)\<rparr>;
                             s3 = s2\<lparr>capacity := (capacity s2)
                                       (orig_partition := capacity s2 orig_partition
                                                          - region_size_bytes s2)\<rparr>;
                             s4 = s3\<lparr>used := (used s3)
                                       (orig_partition := used s3 orig_partition - used_in_region)\<rparr>
                         in case shrink_interval_if_boundary_modified dbg ac s4 orig_partition idx of
                              Inl e \<Rightarrow> Inl e
                            | Inr s5 \<Rightarrow>
                                (let s6 = s5\<lparr>capacity := (capacity s5)
                                               (new_partition := capacity s5 new_partition
                                                                 + region_size_bytes s5)\<rparr>;
                                     s7 = s6\<lparr>used := (used s6)
                                               (new_partition := used s6 new_partition
                                                                 + used_in_region)\<rparr>
                                 in case expand_interval_if_boundary_modified dbg ac s7
                                           new_partition idx available of
                                      Inl e \<Rightarrow> Inl e
                                    | Inr s8 \<Rightarrow>
                                        (let s9 = s8\<lparr>region_counts := (region_counts s8)
                                                       (orig_partition :=
                                                          region_counts s8 orig_partition - 1)\<rparr>
                                         in Inr (s9\<lparr>region_counts := (region_counts s9)
                                                       (new_partition :=
                                                          region_counts s9 new_partition + 1)\<rparr>)))))))"

text \<open>
  Modelled from the spec: \<^verbatim>\<open>available_in\<close> is called by \<^verbatim>\<open>reserve_regions\<close> but is not
  declared in \<^verbatim>\<open>shenandoahFreeSet.hpp\<close>. The specification has the Collector's available
  bytes compared with the target, and \<^verbatim>\<open>finish_rebuild\<close> computes them as
  \<^verbatim>\<open>capacity_of(Collector) - used_by(Collector)\<close>.
\<close>

definition available_in :: "ShenandoahRegionPartitions \<Rightarrow> ShenandoahFreeSetPartitionId \<Rightarrow> size_t" where
  "available_in s which_partition = capacity s which_partition - used s which_partition"

section \<open>The heap, its regions and the allocation request\<close>

text \<open>
  Modelled from the spec: \<^verbatim>\<open>ShenandoahHeap\<close>, \<^verbatim>\<open>ShenandoahHeapRegion\<close>,
  \<^verbatim>\<open>ShenandoahAllocRequest\<close> and \<^verbatim>\<open>PLAB\<close> are not among the sources. The free set uses
  them through the host interface of the specification: per region \<^verbatim>\<open>is_empty\<close>,
  \<^verbatim>\<open>is_trash\<close>, \<^verbatim>\<open>is_alloc_allowed\<close>, \<^verbatim>\<open>free\<close>, \<^verbatim>\<open>used\<close>, \<^verbatim>\<open>allocate\<close> (which bumps
  the region's pointer or answers null), \<^verbatim>\<open>recycle\<close>, \<^verbatim>\<open>make_humongous_start\<close>,
  \<^verbatim>\<open>make_humongous_cont\<close>, \<^verbatim>\<open>set_top\<close>, \<^verbatim>\<open>set_update_watermark\<close>, and the globals
  \<^verbatim>\<open>region_size_bytes\<close>, \<^verbatim>\<open>region_size_words\<close>, \<^verbatim>\<open>humongous_threshold_words\<close>,
  \<^verbatim>\<open>min_object_alignment\<close>, \<^verbatim>\<open>num_regions\<close>, \<^verbatim>\<open>max_capacity\<close>. A region is its state
  flag, the number of bytes between \<^verbatim>\<open>bottom\<close> and \<^verbatim>\<open>top\<close>, and the offset of its update
  watermark; an address is a region index with a byte offset from \<^verbatim>\<open>bottom\<close>.
\<close>

datatype region_state =
    EmptyState | RegularState | TrashState | HumongousStartState | HumongousContState | OtherState

record ShenandoahHeapRegion =
  state :: region_state
  region_top :: size_t
  update_watermark :: size_t

record ShenandoahHeap =
  regions :: "ShenandoahHeapRegion list"
  concurrent_weak_root_in_progress :: bool
  heap_used :: size_t

text \<open>
  The globals and the flags. \<open>min_capacity\<close> is the \<^verbatim>\<open>static const size_t min_capacity\<close> of
  \<^verbatim>\<open>try_allocate_in\<close>, which the code computes in floating point as
  \<^verbatim>\<open>region_size_bytes * (1.0 - 1.0 / ShenandoahEvacWaste)\<close>; it is a parameter here.
\<close>

record vm_options =
  region_size :: size_t
  region_size_words :: size_t
  region_size_words_mask :: size_t
  humongous_threshold_words :: size_t
  MinObjAlignment :: size_t
  PLAB_min_size :: size_t
  max_capacity :: size_t
  ShenandoahEvacReserve :: size_t
  ShenandoahEvacReserveOverflow :: bool
  min_capacity :: size_t

definition HeapWordSize :: size_t where
  "HeapWordSize = 8"

definition LogHeapWordSize :: nat where
  "LogHeapWordSize = 3"

datatype alloc_type = alloc_shared | alloc_shared_gc | alloc_tlab | alloc_gclab

record ShenandoahAllocRequest =
  requested_size :: size_t
  min_size :: size_t
  alloc_kind :: alloc_type
  actual_size :: size_t

definition is_mutator_alloc :: "ShenandoahAllocRequest \<Rightarrow> bool" where
  "is_mutator_alloc req = (alloc_kind req = alloc_tlab \<or> alloc_kind req = alloc_shared)"

definition is_gc_alloc :: "ShenandoahAllocRequest \<Rightarrow> bool" where
  "is_gc_alloc req = (alloc_kind req = alloc_gclab \<or> alloc_kind req = alloc_shared_gc)"

definition is_lab_alloc :: "ShenandoahAllocRequest \<Rightarrow> bool" where
  "is_lab_alloc req = (alloc_kind req = alloc_tlab \<or> alloc_kind req = alloc_gclab)"

type_synonym HeapWordPtr = "nat \<times> size_t"

definition num_regions :: "ShenandoahHeap \<Rightarrow> nat" where
  "num_regions h = length (regions h)"

text \<open>\<^verbatim>\<open>get_region\<close> answers null for an index that is not below \<^verbatim>\<open>num_regions\<close>.\<close>

definition get_region :: "ShenandoahHeap \<Rightarrow> int \<Rightarrow> ShenandoahHeapRegion option" where
  "get_region h idx =
     (if 0 \<le> idx \<and> nat idx < num_regions h then Some (regions h ! nat idx) else None)"

definition put_region :: "ShenandoahHeap \<Rightarrow> int \<Rightarrow> ShenandoahHeapRegion \<Rightarrow> ShenandoahHeap" where
  "put_region h idx r = h\<lparr>regions := (regions h)[nat idx := r]\<rparr>"

definition is_empty :: "ShenandoahHeapRegion \<Rightarrow> bool" where
  "is_empty r = (state r = EmptyState)"

definition is_trash :: "ShenandoahHeapRegion \<Rightarrow> bool" where
  "is_trash r = (state r = TrashState)"

definition is_alloc_allowed :: "ShenandoahHeapRegion \<Rightarrow> bool" where
  "is_alloc_allowed r = (state r = EmptyState \<or> state r = RegularState)"

definition region_used :: "ShenandoahHeapRegion \<Rightarrow> size_t" where
  "region_used r = region_top r"

definition region_free :: "vm_options \<Rightarrow> ShenandoahHeapRegion \<Rightarrow> size_t" where
  "region_free opts r = region_size opts - region_top r"

text \<open>\<^verbatim>\<open>r->allocate(size, type)\<close>: the new region and the address, or \<open>None\<close> for null.\<close>

definition region_allocate ::
  "vm_options \<Rightarrow> ShenandoahHeapRegion \<Rightarrow> size_t \<Rightarrow> (ShenandoahHeapRegion \<times> size_t) option" where
  "region_allocate opts r size_words =
     (if drop_bit LogHeapWordSize (region_free opts r) \<ge> size_words
      then Some (r\<lparr>state := RegularState, region_top := region_top r + size_words * HeapWordSize\<rparr>, region_top r)
      else None)"

definition recycle :: "ShenandoahHeapRegion \<Rightarrow> ShenandoahHeapRegion" where
  "recycle r = r\<lparr>state := EmptyState, region_top := 0, update_watermark := 0\<rparr>"

definition align_down :: "size_t \<Rightarrow> size_t \<Rightarrow> size_t" where
  "align_down x alignment = x AND NOT (alignment - 1)"

text \<open>
  \<^verbatim>\<open>ShenandoahHeapRegion::required_regions\<close>: the number of regions that hold the given
  number of bytes, rounded up.
\<close>

definition required_regions :: "vm_options \<Rightarrow> size_t \<Rightarrow> size_t" where
  "required_regions opts bytes = (bytes + (region_size opts - 1)) div region_size opts"

section \<open>ShenandoahFreeSet\<close>

record ShenandoahFreeSet =
  heap :: ShenandoahHeap
  partitions :: ShenandoahRegionPartitions
  alloc_bias_weight :: int
  right_to_left_bias :: bool

definition can_allocate_from :: "ShenandoahHeap \<Rightarrow> ShenandoahHeapRegion \<Rightarrow> bool" where
  "can_allocate_from h r = (is_empty r \<or> (is_trash r \<and> \<not> concurrent_weak_root_in_progress h))"

definition alloc_capacity :: "vm_options \<Rightarrow> ShenandoahHeapRegion \<Rightarrow> size_t" where
  "alloc_capacity opts r = (if is_trash r then region_size opts else region_free opts r)"

text \<open>\<^verbatim>\<open>alloc_capacity(size_t idx)\<close>; a null region stops the program.\<close>

definition alloc_capacity_idx :: "vm_options \<Rightarrow> ShenandoahHeap \<Rightarrow> capacity_query" where
  "alloc_capacity_idx opts h idx =
     (case get_region h idx of None \<Rightarrow> Inl NullRegion | Some r \<Rightarrow> Inr (alloc_capacity opts r))"

definition has_alloc_capacity :: "vm_options \<Rightarrow> ShenandoahHeapRegion \<Rightarrow> bool" where
  "has_alloc_capacity opts r = (alloc_capacity opts r > 0)"

subsection \<open>assert_bounds\<close>

text \<open>
  \<^verbatim>\<open>assert_bounds\<close> exists in a debug build only. Its last checks call the scanning
  \<^verbatim>\<open>leftmost_empty(Mutator)\<close> and \<^verbatim>\<open>rightmost_empty(Mutator)\<close>, so it updates the table.
\<close>

record observed_bounds =
  ob_leftmosts :: "ShenandoahFreeSetPartitionId \<Rightarrow> int"
  ob_rightmosts :: "ShenandoahFreeSetPartitionId \<Rightarrow> int"
  ob_empty_leftmosts :: "ShenandoahFreeSetPartitionId \<Rightarrow> int"
  ob_empty_rightmosts :: "ShenandoahFreeSetPartitionId \<Rightarrow> int"

function assert_bounds_scan ::
  "capacity_query \<Rightarrow> ShenandoahRegionPartitions \<Rightarrow> int \<Rightarrow> observed_bounds
     \<Rightarrow> vm_error + observed_bounds" where
  "assert_bounds_scan ac s i ob =
     (if i < max_regions s then
        (case membership_of s i of
           Inl e \<Rightarrow> Inl e
         | Inr None \<Rightarrow> assert_bounds_scan ac s (i + 1) ob
         | Inr (Some partition_id) \<Rightarrow>
             (case ac i of
                Inl e \<Rightarrow> Inl e
              | Inr cap \<Rightarrow>
                  if \<not> cap > 0 then Inl AssertionFailure
                  else
                    (let is_empty_region = (cap = region_size_bytes s);
                         ob1 = (if i < ob_leftmosts ob partition_id
                                then ob\<lparr>ob_leftmosts := (ob_leftmosts ob)(partition_id := i)\<rparr>
                                else ob);
                         ob2 = (if is_empty_region \<and> i < ob_empty_leftmosts ob1 partition_id
                                then ob1\<lparr>ob_empty_leftmosts :=
                                           (ob_empty_leftmosts ob1)(partition_id := i)\<rparr>
                                else ob1);
                         ob3 = (if i > ob_rightmosts ob2 partition_id
                                then ob2\<lparr>ob_rightmosts := (ob_rightmosts ob2)(partition_id := i)\<rparr>
                                else ob2);
                         ob4 = (if is_empty_region \<and> i > ob_empty_rightmosts ob3 partition_id
                                then ob3\<lparr>ob_empty_rightmosts :=
                                           (ob_empty_rightmosts ob3)(partition_id := i)\<rparr>
                                else ob3)
                     in assert_bounds_scan ac s (i + 1) ob4)))
      else Inr ob)"
  by pat_completeness auto
termination
  by (relation "measure (\<lambda>(ac, s, i, ob). nat (max_regions s - i))") auto

declare assert_bounds_scan.simps [simp del]

text \<open>\<^verbatim>\<open>partition_id_matches\<close>, of the debug build.\<close>

definition partition_id_matches ::
  "ShenandoahRegionPartitions \<Rightarrow> int \<Rightarrow> ShenandoahFreeSetPartitionId \<Rightarrow> vm_error + bool" where
  "partition_id_matches s idx test_partition =
     (if \<not> idx < max_regions s then Inl AssertionFailure
      else map_sum id (\<lambda>m. m = Some test_partition) (membership_of s idx))"

text \<open>The checks of \<^verbatim>\<open>assert_bounds\<close> on the intervals of one partition.\<close>

definition assert_interval_bounds ::
  "ShenandoahRegionPartitions \<Rightarrow> observed_bounds \<Rightarrow> ShenandoahFreeSetPartitionId \<Rightarrow> vm_error option" where
  "assert_interval_bounds s ob p =
     (if \<not> leftmost s p \<le> max_regions s then Some AssertionFailure
      else if \<not> rightmost s p < max_regions s then Some AssertionFailure
      else case (if leftmost s p = max_regions s then Inr True
                 else partition_id_matches s (leftmost s p) p) of
             Inl e \<Rightarrow> Some e
           | Inr left_ok \<Rightarrow>
               if \<not> left_ok then Some AssertionFailure
               else case (if leftmost s p = max_regions s then Inr True
                          else partition_id_matches s (rightmost s p) p) of
                      Inl e \<Rightarrow> Some e
                    | Inr right_ok \<Rightarrow>
                        if \<not> right_ok then Some AssertionFailure
                        else if \<not> ob_leftmosts ob p \<ge> leftmost s p then Some AssertionFailure
                        else if \<not> ob_rightmosts ob p \<le> rightmost s p then Some AssertionFailure
                        else None)"

definition assert_bounds ::
  "bool \<Rightarrow> capacity_query \<Rightarrow> ShenandoahRegionPartitions \<Rightarrow> vm_error + ShenandoahRegionPartitions" where
  "assert_bounds dbg ac s =
     (if \<not> dbg then Inr s
      else
        case assert_bounds_scan ac s 0
               \<lparr>ob_leftmosts = (\<lambda>p. max_regions s), ob_rightmosts = (\<lambda>p. - 1),
                ob_empty_leftmosts = (\<lambda>p. max_regions s), ob_empty_rightmosts = (\<lambda>p. - 1)\<rparr> of
          Inl e \<Rightarrow> Inl e
        | Inr ob \<Rightarrow>
            (case assert_interval_bounds s ob Mutator of
               Some e \<Rightarrow> Inl e
             | None \<Rightarrow>
                 (case leftmost_empty True ac s Mutator of
                    Inl e \<Rightarrow> Inl e
                  | Inr (le, s1) \<Rightarrow>
                      if \<not> ob_empty_leftmosts ob Mutator \<ge> le then Inl AssertionFailure
                      else
                        (case rightmost_empty True ac s1 Mutator of
                           Inl e \<Rightarrow> Inl e
                         | Inr (re, s2) \<Rightarrow>
                             if \<not> ob_empty_rightmosts ob Mutator \<le> re then Inl AssertionFailure
                             else
                               (case assert_interval_bounds s2 ob Collector of
                                  Some e \<Rightarrow> Inl e
                                | None \<Rightarrow>
                                    if \<not> ob_empty_leftmosts ob Collector
                                           \<ge> leftmosts_empty s2 Collector
                                    then Inl AssertionFailure
                                    else if \<not> ob_empty_rightmosts ob Collector
                                                \<le> rightmosts_empty s2 Collector
                                    then Inl AssertionFailure
                                    else Inr s2)))))"

subsection \<open>Allocation in one region\<close>

definition try_recycle_trashed :: "ShenandoahHeap \<Rightarrow> int \<Rightarrow> ShenandoahHeapRegion \<Rightarrow> ShenandoahHeap" where
  "try_recycle_trashed h idx r =
     (if is_trash r
      then put_region (h\<lparr>heap_used := heap_used h - region_used r\<rparr>) idx (recycle r)
      else h)"

type_synonym alloc_result =
  "HeapWordPtr option \<times> bool \<times> ShenandoahAllocRequest \<times> ShenandoahFreeSet"

text \<open>
  \<^verbatim>\<open>try_allocate_in(r, req, in_new_region)\<close>, with the region given by its index. The result
  is the address or null, then the two reference arguments \<^verbatim>\<open>in_new_region\<close> and \<^verbatim>\<open>req\<close>,
  then the free set.
\<close>

definition try_allocate_in ::
  "bool \<Rightarrow> vm_options \<Rightarrow> ShenandoahFreeSet \<Rightarrow> int \<Rightarrow> ShenandoahAllocRequest \<Rightarrow> bool
     \<Rightarrow> vm_error + alloc_result" where
  "try_allocate_in dbg opts fs idx req in_new_region =
     (case get_region (heap fs) idx of
        None \<Rightarrow> Inl NullRegion
      | Some r0 \<Rightarrow>
          if assert_fails dbg (has_alloc_capacity opts r0) then Inl AssertionFailure
          else if concurrent_weak_root_in_progress (heap fs) \<and> is_trash r0
          then Inr (None, in_new_region, req, fs)
          else
            (let h1 = try_recycle_trashed (heap fs) idx r0;
                 r1 = (if is_trash r0 then recycle r0 else r0);
                 in_new_region' = is_empty r1;
                 attempt =
                   (if is_lab_alloc req then
                      (let free_words = align_down (drop_bit LogHeapWordSize (region_free opts r1))
                                          (MinObjAlignment opts);
                           adjusted_size = (if requested_size req > free_words then free_words
                                            else requested_size req)
                       in if adjusted_size \<ge> min_size req
                          then (case region_allocate opts r1 adjusted_size of
                                  None \<Rightarrow>
                                    if dbg then Inl AssertionFailure
                                    else Inr (None, r1, req\<lparr>actual_size := adjusted_size\<rparr>)
                                | Some (r2, addr) \<Rightarrow>
                                    Inr (Some (nat idx, addr), r2,
                                         req\<lparr>actual_size := adjusted_size\<rparr>))
                          else Inr (None, r1, req))
                    else
                      (case region_allocate opts r1 (requested_size req) of
                         None \<Rightarrow> Inr (None, r1, req)
                       | Some (r2, addr) \<Rightarrow>
                           Inr (Some (nat idx, addr), r2,
                                req\<lparr>actual_size := requested_size req\<rparr>)))
             in case attempt of
                  Inl e \<Rightarrow> Inl e
                | Inr (result, r2, req') \<Rightarrow>
                    (case (if result \<noteq> None then
                             (if is_mutator_alloc req'
                              then map_sum id (\<lambda>p. (p, r2))
                                     (increase_used dbg (partitions fs) Mutator
                                        (actual_size req' * HeapWordSize))
                              else if assert_fails dbg (is_gc_alloc req') then Inl AssertionFailure
                              else Inr (partitions fs, r2\<lparr>update_watermark := region_top r2\<rparr>))
                           else Inr (partitions fs, r2)) of
                       Inl e \<Rightarrow> Inl e
                     | Inr (p1, r3) \<Rightarrow>
                         (let h2 = put_region h1 idx r3;
                              ac = alloc_capacity opts r3
                          in if (result = None \<and> ac < min_capacity opts)
                                \<or> alloc_capacity opts r3 < PLAB_min_size opts * HeapWordSize
                             then
                               (case retire_from_partition dbg (alloc_capacity_idx opts h2) p1
                                       (if is_mutator_alloc req' then Mutator else Collector)
                                       idx (region_used r3) of
                                  Inl e \<Rightarrow> Inl e
                                | Inr p2 \<Rightarrow>
                                    (case assert_bounds dbg (alloc_capacity_idx opts h2) p2 of
                                       Inl e \<Rightarrow> Inl e
                                     | Inr p3 \<Rightarrow>
                                         Inr (result, in_new_region', req',
                                              fs\<lparr>heap := h2, partitions := p3\<rparr>)))
                             else Inr (result, in_new_region', req',
                                       fs\<lparr>heap := h2, partitions := p1\<rparr>)))))"

subsection \<open>Rebuild and reserve\<close>

definition clear_internal :: "ShenandoahFreeSet \<Rightarrow> ShenandoahFreeSet" where
  "clear_internal fs = fs\<lparr>partitions := make_all_regions_unavailable (partitions fs)\<rparr>"

text \<open>The local variables of \<^verbatim>\<open>find_regions_with_alloc_capacity\<close>.\<close>

record rebuild_locals =
  cset_regions :: size_t
  mutator_leftmost :: int
  mutator_rightmost :: int
  mutator_leftmost_empty :: int
  mutator_rightmost_empty :: int
  mutator_regions :: size_t
  mutator_used :: size_t

function find_regions_loop ::
  "bool \<Rightarrow> vm_options \<Rightarrow> ShenandoahHeap \<Rightarrow> nat \<Rightarrow> rebuild_locals \<Rightarrow> ShenandoahRegionPartitions
     \<Rightarrow> vm_error + rebuild_locals \<times> ShenandoahRegionPartitions" where
  "find_regions_loop dbg opts h idx l s =
     (if idx < num_regions h then
        (let region = regions h ! idx;
             l1 = (if is_trash region then l\<lparr>cset_regions := cset_regions l + 1\<rparr> else l)
         in if is_alloc_allowed region \<or> is_trash region then
              (let ac = alloc_capacity opts region
               in if ac > PLAB_min_size opts * HeapWordSize then
                    (case raw_set_membership dbg s (int idx) Mutator of
                       Inl e \<Rightarrow> Inl e
                     | Inr s1 \<Rightarrow>
                         (let l2 = (if int idx < mutator_leftmost l1
                                    then l1\<lparr>mutator_leftmost := int idx\<rparr> else l1);
                              l3 = (if int idx > mutator_rightmost l2
                                    then l2\<lparr>mutator_rightmost := int idx\<rparr> else l2);
                              l4 = (if ac = region_size_bytes s then
                                      (let l3a = (if int idx < mutator_leftmost_empty l3
                                                  then l3\<lparr>mutator_leftmost_empty := int idx\<rparr>
                                                  else l3)
                                       in if int idx > mutator_rightmost_empty l3a
                                          then l3a\<lparr>mutator_rightmost_empty := int idx\<rparr>
                                          else l3a)
                                    else l3);
                              l5 = l4\<lparr>mutator_regions := mutator_regions l4 + 1,
                                      mutator_used := mutator_used l4 + (region_size_bytes s - ac)\<rparr>
                          in find_regions_loop dbg opts h (idx + 1) l5 s1))
                  else find_regions_loop dbg opts h (idx + 1) l1 s)
            else find_regions_loop dbg opts h (idx + 1) l1 s)
      else Inr (l, s))"
  by pat_completeness auto
termination
  by (relation "measure (\<lambda>(dbg, opts, h, idx, l, s). num_regions h - idx)") auto

declare find_regions_loop.simps [simp del]

text \<open>
  \<^verbatim>\<open>find_regions_with_alloc_capacity(cset_regions)\<close>; the result is the free set and the
  value left in \<^verbatim>\<open>cset_regions\<close>.
\<close>

definition find_regions_with_alloc_capacity ::
  "bool \<Rightarrow> vm_options \<Rightarrow> ShenandoahFreeSet \<Rightarrow> vm_error + ShenandoahFreeSet \<times> size_t" where
  "find_regions_with_alloc_capacity dbg opts fs =
     (let fs1 = clear_internal fs;
          max_regions_local = max_regions (partitions fs1);
          l0 = \<lparr>cset_regions = 0, mutator_leftmost = max_regions_local, mutator_rightmost = 0,
                mutator_leftmost_empty = max_regions_local, mutator_rightmost_empty = 0,
                mutator_regions = 0, mutator_used = 0\<rparr>
      in case find_regions_loop dbg opts (heap fs1) 0 l0 (partitions fs1) of
           Inl e \<Rightarrow> Inl e
         | Inr (l, s) \<Rightarrow>
             Inr (fs1\<lparr>partitions :=
                        establish_intervals s (mutator_leftmost l) (mutator_rightmost l)
                          (mutator_leftmost_empty l) (mutator_rightmost_empty l)
                          (mutator_regions l) (mutator_used l)\<rparr>,
                  cset_regions l))"

text \<open>
  The loop of \<^verbatim>\<open>reserve_regions\<close>, \<^verbatim>\<open>for (size_t i = num_regions; i > 0; i--)\<close> with
  \<^verbatim>\<open>idx = i - 1\<close>; the recursion is on \<open>i\<close>.
\<close>

fun reserve_regions_loop ::
  "bool \<Rightarrow> vm_options \<Rightarrow> ShenandoahHeap \<Rightarrow> size_t \<Rightarrow> nat \<Rightarrow> ShenandoahRegionPartitions
     \<Rightarrow> vm_error + ShenandoahRegionPartitions" where
  "reserve_regions_loop dbg opts h to_reserve 0 s = Inr s"
| "reserve_regions_loop dbg opts h to_reserve (Suc idx) s =
     (case in_free_set dbg s Mutator (int idx) of
        Inl e \<Rightarrow> Inl e
      | Inr is_member \<Rightarrow>
          if \<not> is_member then reserve_regions_loop dbg opts h to_reserve idx s
          else
            (case get_region h (int idx) of
               None \<Rightarrow> Inl NullRegion
             | Some r \<Rightarrow>
                 (let ac = alloc_capacity opts r
                  in if assert_fails dbg (ac > 0) then Inl AssertionFailure
                     else
                       (let move_to_collector = (available_in s Collector < to_reserve)
                        in if \<not> move_to_collector then Inr s
                           else
                             (case move_from_partition_to_partition dbg (alloc_capacity_idx opts h) s
                                     (int idx) Mutator Collector ac of
                                Inl e \<Rightarrow> Inl e
                              | Inr s1 \<Rightarrow> reserve_regions_loop dbg opts h to_reserve idx s1)))))"

definition reserve_regions ::
  "bool \<Rightarrow> vm_options \<Rightarrow> ShenandoahFreeSet \<Rightarrow> size_t \<Rightarrow> vm_error + ShenandoahFreeSet" where
  "reserve_regions dbg opts fs to_reserve =
     map_sum id (\<lambda>s. fs\<lparr>partitions := s\<rparr>)
       (reserve_regions_loop dbg opts (heap fs) to_reserve (num_regions (heap fs)) (partitions fs))"

definition prepare_to_rebuild ::
  "bool \<Rightarrow> vm_options \<Rightarrow> ShenandoahFreeSet \<Rightarrow> vm_error + ShenandoahFreeSet \<times> size_t" where
  "prepare_to_rebuild dbg opts fs = find_regions_with_alloc_capacity dbg opts fs"

text \<open>
  \<^verbatim>\<open>finish_rebuild\<close>. The heap lock and the log are not modelled: \<^verbatim>\<open>log_status\<close> writes
  to the log only.
\<close>

definition finish_rebuild ::
  "bool \<Rightarrow> vm_options \<Rightarrow> ShenandoahFreeSet \<Rightarrow> size_t \<Rightarrow> vm_error + ShenandoahFreeSet" where
  "finish_rebuild dbg opts fs cset =
     (let reserve = max_capacity opts * ShenandoahEvacReserve opts div 100
      in case reserve_regions dbg opts fs reserve of
           Inl e \<Rightarrow> Inl e
         | Inr fs1 \<Rightarrow>
             map_sum id (\<lambda>s. fs1\<lparr>partitions := s\<rparr>)
               (assert_bounds dbg (alloc_capacity_idx opts (heap fs1)) (partitions fs1)))"

definition rebuild :: "bool \<Rightarrow> vm_options \<Rightarrow> ShenandoahFreeSet \<Rightarrow> vm_error + ShenandoahFreeSet" where
  "rebuild dbg opts fs =
     (case prepare_to_rebuild dbg opts fs of
        Inl e \<Rightarrow> Inl e
      | Inr (fs1, cset) \<Rightarrow> finish_rebuild dbg opts fs1 cset)"

text \<open>The constructor \<^verbatim>\<open>ShenandoahFreeSet(heap, max_regions)\<close>.\<close>

definition new_free_set ::
  "vm_options \<Rightarrow> ShenandoahHeap \<Rightarrow> nat \<Rightarrow> (ShenandoahFreeSetPartitionId \<Rightarrow> nat \<Rightarrow> size_t)
     \<Rightarrow> ShenandoahFreeSet" where
  "new_free_set opts h n mem =
     clear_internal
       \<lparr>heap = h, partitions = new_partitions n (region_size opts) mem,
        alloc_bias_weight = 0, right_to_left_bias = False\<rparr>"

subsection \<open>Allocation of a single region\<close>

text \<open>
  The loops of the allocation paths go from one member of a partition to the next with
  \<^verbatim>\<open>find_index_of_previous_available_region\<close> or
  \<^verbatim>\<open>find_index_of_next_available_region\<close>, and nothing in the loop itself bounds them when
  the table is not well formed. They are partial functions: \<open>None\<close> is a loop that does
  not end, \<open>Some (Inl e)\<close> a stop with an error and \<open>Some (Inr x)\<close> a return.
\<close>

type_synonym alloc_outcome = "(vm_error + alloc_result) option"

text \<open>
  The block of \<^verbatim>\<open>allocate_single\<close> under \<^verbatim>\<open>if (_alloc_bias_weight-- <= 0)\<close>; the counter
  has been decremented already.
\<close>

definition reconsider_alloc_bias ::
  "bool \<Rightarrow> vm_options \<Rightarrow> ShenandoahFreeSet \<Rightarrow> vm_error + ShenandoahFreeSet" where
  "reconsider_alloc_bias dbg opts fs =
     (case leftmost_empty dbg (alloc_capacity_idx opts (heap fs)) (partitions fs) Mutator of
        Inl e \<Rightarrow> Inl e
      | Inr (le, p1) \<Rightarrow>
          (let non_empty_on_left = le - leftmost p1 Mutator
           in case rightmost_empty dbg (alloc_capacity_idx opts (heap fs)) p1 Mutator of
                Inl e \<Rightarrow> Inl e
              | Inr (re, p2) \<Rightarrow>
                  (let non_empty_on_right = rightmost p2 Mutator - re
                   in Inr (fs\<lparr>partitions := p2,
                              right_to_left_bias := (non_empty_on_right > non_empty_on_left),
                              alloc_bias_weight := 256\<rparr>))))"

text \<open>The body of the two mutator loops up to the step to the next index.\<close>

definition mutator_try_region ::
  "bool \<Rightarrow> vm_options \<Rightarrow> ShenandoahFreeSet \<Rightarrow> ShenandoahAllocRequest \<Rightarrow> bool \<Rightarrow> int
     \<Rightarrow> vm_error + alloc_result" where
  "mutator_try_region dbg opts fs req in_new_region idx =
     (case assert_that dbg (in_free_set dbg (partitions fs) Mutator idx) of
        Some e \<Rightarrow> Inl e
      | None \<Rightarrow>
          (case get_region (heap fs) idx of
             None \<Rightarrow> Inl NullRegion
           | Some r \<Rightarrow>
               (let min_size_needed = (if alloc_kind req = alloc_tlab then min_size req
                                       else requested_size req)
                in if alloc_capacity opts r \<ge> min_size_needed
                   then try_allocate_in dbg opts fs idx req in_new_region
                   else Inr (None, in_new_region, req, fs))))"

partial_function (option) mutator_scan_right_to_left ::
  "bool \<Rightarrow> vm_options \<Rightarrow> ShenandoahFreeSet \<Rightarrow> ShenandoahAllocRequest \<Rightarrow> bool \<Rightarrow> int \<Rightarrow> int
     \<Rightarrow> alloc_outcome" where
  "mutator_scan_right_to_left dbg opts fs req in_new_region idx leftmost_idx =
     (if idx \<ge> leftmost_idx then
        (case mutator_try_region dbg opts fs req in_new_region idx of
           Inl e \<Rightarrow> Some (Inl e)
         | Inr (result, in_new_region', req', fs') \<Rightarrow>
             if result \<noteq> None then Some (Inr (result, in_new_region', req', fs'))
             else
               (case find_index_of_previous_available_region dbg (partitions fs') Mutator
                       (idx - 1) of
                  Inl e \<Rightarrow> Some (Inl e)
                | Inr idx' \<Rightarrow>
                    mutator_scan_right_to_left dbg opts fs' req' in_new_region' idx' leftmost_idx))
      else Some (Inr (None, in_new_region, req, fs)))"

declare mutator_scan_right_to_left.simps [code]

partial_function (option) mutator_scan_left_to_right ::
  "bool \<Rightarrow> vm_options \<Rightarrow> ShenandoahFreeSet \<Rightarrow> ShenandoahAllocRequest \<Rightarrow> bool \<Rightarrow> int \<Rightarrow> int
     \<Rightarrow> alloc_outcome" where
  "mutator_scan_left_to_right dbg opts fs req in_new_region idx rightmost_idx =
     (if idx \<le> rightmost_idx then
        (case mutator_try_region dbg opts fs req in_new_region idx of
           Inl e \<Rightarrow> Some (Inl e)
         | Inr (result, in_new_region', req', fs') \<Rightarrow>
             if result \<noteq> None then Some (Inr (result, in_new_region', req', fs'))
             else
               (case find_index_of_next_available_region dbg (partitions fs') Mutator (idx + 1) of
                  Inl e \<Rightarrow> Some (Inl e)
                | Inr idx' \<Rightarrow>
                    mutator_scan_left_to_right dbg opts fs' req' in_new_region' idx' rightmost_idx))
      else Some (Inr (None, in_new_region, req, fs)))"

declare mutator_scan_left_to_right.simps [code]

partial_function (option) collector_scan ::
  "bool \<Rightarrow> vm_options \<Rightarrow> ShenandoahFreeSet \<Rightarrow> ShenandoahAllocRequest \<Rightarrow> bool \<Rightarrow> int \<Rightarrow> int
     \<Rightarrow> alloc_outcome" where
  "collector_scan dbg opts fs req in_new_region idx leftmost_collector =
     (if idx \<ge> leftmost_collector then
        (case assert_that dbg (in_free_set dbg (partitions fs) Collector idx) of
           Some e \<Rightarrow> Some (Inl e)
         | None \<Rightarrow>
             (case try_allocate_in dbg opts fs idx req in_new_region of
                Inl e \<Rightarrow> Some (Inl e)
              | Inr (result, in_new_region', req', fs') \<Rightarrow>
                  if result \<noteq> None then Some (Inr (result, in_new_region', req', fs'))
                  else
                    (case find_index_of_previous_available_region dbg (partitions fs') Collector
                            (idx - 1) of
                       Inl e \<Rightarrow> Some (Inl e)
                     | Inr idx' \<Rightarrow>
                         collector_scan dbg opts fs' req' in_new_region' idx' leftmost_collector)))
      else Some (Inr (None, in_new_region, req, fs)))"

declare collector_scan.simps [code]

definition flip_to_gc ::
  "bool \<Rightarrow> vm_options \<Rightarrow> ShenandoahFreeSet \<Rightarrow> int \<Rightarrow> ShenandoahHeapRegion
     \<Rightarrow> vm_error + ShenandoahFreeSet" where
  "flip_to_gc dbg opts fs idx r =
     (case assert_that dbg (partition_id_matches (partitions fs) idx Mutator) of
        Some e \<Rightarrow> Inl e
      | None \<Rightarrow>
          if assert_fails dbg (can_allocate_from (heap fs) r) then Inl AssertionFailure
          else
            (let ac = alloc_capacity opts r
             in case move_from_partition_to_partition dbg (alloc_capacity_idx opts (heap fs))
                       (partitions fs) idx Mutator Collector ac of
                  Inl e \<Rightarrow> Inl e
                | Inr p1 \<Rightarrow>
                    map_sum id (\<lambda>p2. fs\<lparr>partitions := p2\<rparr>)
                      (assert_bounds dbg (alloc_capacity_idx opts (heap fs)) p1)))"

text \<open>The body of the loop that steals an empty region from the Mutator partition.\<close>

definition steal_try_region ::
  "bool \<Rightarrow> vm_options \<Rightarrow> ShenandoahFreeSet \<Rightarrow> ShenandoahAllocRequest \<Rightarrow> bool \<Rightarrow> int
     \<Rightarrow> vm_error + alloc_result" where
  "steal_try_region dbg opts fs req in_new_region idx =
     (case assert_that dbg (in_free_set dbg (partitions fs) Mutator idx) of
        Some e \<Rightarrow> Inl e
      | None \<Rightarrow>
          (case get_region (heap fs) idx of
             None \<Rightarrow> Inl NullRegion
           | Some r \<Rightarrow>
               if can_allocate_from (heap fs) r then
                 (case flip_to_gc dbg opts fs idx r of
                    Inl e \<Rightarrow> Inl e
                  | Inr fs1 \<Rightarrow> try_allocate_in dbg opts fs1 idx req in_new_region)
               else Inr (None, in_new_region, req, fs)))"

partial_function (option) steal_scan ::
  "bool \<Rightarrow> vm_options \<Rightarrow> ShenandoahFreeSet \<Rightarrow> ShenandoahAllocRequest \<Rightarrow> bool \<Rightarrow> int \<Rightarrow> int
     \<Rightarrow> alloc_outcome" where
  "steal_scan dbg opts fs req in_new_region idx leftmost_mutator_empty =
     (if idx \<ge> leftmost_mutator_empty then
        (case steal_try_region dbg opts fs req in_new_region idx of
           Inl e \<Rightarrow> Some (Inl e)
         | Inr (result, in_new_region', req', fs') \<Rightarrow>
             if result \<noteq> None then Some (Inr (result, in_new_region', req', fs'))
             else
               (case find_index_of_previous_available_region dbg (partitions fs') Mutator
                       (idx - 1) of
                  Inl e \<Rightarrow> Some (Inl e)
                | Inr idx' \<Rightarrow>
                    steal_scan dbg opts fs' req' in_new_region' idx' leftmost_mutator_empty))
      else Some (Inr (None, in_new_region, req, fs)))"

declare steal_scan.simps [code]

text \<open>The case \<^verbatim>\<open>_alloc_tlab\<close>, \<^verbatim>\<open>_alloc_shared\<close> of \<^verbatim>\<open>allocate_single\<close>.\<close>

definition allocate_single_mutator ::
  "bool \<Rightarrow> vm_options \<Rightarrow> ShenandoahFreeSet \<Rightarrow> ShenandoahAllocRequest \<Rightarrow> bool \<Rightarrow> alloc_outcome" where
  "allocate_single_mutator dbg opts fs req in_new_region =
     (let weight = alloc_bias_weight fs;
          fs1 = fs\<lparr>alloc_bias_weight := weight - 1\<rparr>
      in case (if weight \<le> 0 then reconsider_alloc_bias dbg opts fs1 else Inr fs1) of
           Inl e \<Rightarrow> Some (Inl e)
         | Inr fs2 \<Rightarrow>
             if right_to_left_bias fs2 then
               (if \<not> is_empty_partition (partitions fs2) Mutator
                then mutator_scan_right_to_left dbg opts fs2 req in_new_region
                       (rightmost (partitions fs2) Mutator) (leftmost (partitions fs2) Mutator)
                else Some (Inr (None, in_new_region, req, fs2)))
             else
               (if \<not> is_empty_partition (partitions fs2) Mutator
                then mutator_scan_left_to_right dbg opts fs2 req in_new_region
                       (leftmost (partitions fs2) Mutator) (rightmost (partitions fs2) Mutator)
                else Some (Inr (None, in_new_region, req, fs2))))"

text \<open>The case \<^verbatim>\<open>_alloc_gclab\<close>, \<^verbatim>\<open>_alloc_shared_gc\<close> of \<^verbatim>\<open>allocate_single\<close>.\<close>

definition allocate_single_gc ::
  "bool \<Rightarrow> vm_options \<Rightarrow> ShenandoahFreeSet \<Rightarrow> ShenandoahAllocRequest \<Rightarrow> bool \<Rightarrow> alloc_outcome" where
  "allocate_single_gc dbg opts fs req in_new_region =
     (case collector_scan dbg opts fs req in_new_region (rightmost (partitions fs) Collector)
             (leftmost (partitions fs) Collector) of
        None \<Rightarrow> None
      | Some (Inl e) \<Rightarrow> Some (Inl e)
      | Some (Inr (result, in_new_region', req', fs')) \<Rightarrow>
          if result \<noteq> None then Some (Inr (result, in_new_region', req', fs'))
          else if \<not> ShenandoahEvacReserveOverflow opts
          then Some (Inr (None, in_new_region', req', fs'))
          else
            (case leftmost_empty dbg (alloc_capacity_idx opts (heap fs')) (partitions fs') Mutator of
               Inl e \<Rightarrow> Some (Inl e)
             | Inr (leftmost_mutator_empty, p1) \<Rightarrow>
                 (case rightmost_empty dbg (alloc_capacity_idx opts (heap fs')) p1 Mutator of
                    Inl e \<Rightarrow> Some (Inl e)
                  | Inr (re, p2) \<Rightarrow>
                      steal_scan dbg opts (fs'\<lparr>partitions := p2\<rparr>) req' in_new_region' re
                        leftmost_mutator_empty)))"

definition allocate_single ::
  "bool \<Rightarrow> vm_options \<Rightarrow> ShenandoahFreeSet \<Rightarrow> ShenandoahAllocRequest \<Rightarrow> bool \<Rightarrow> alloc_outcome" where
  "allocate_single dbg opts fs req in_new_region =
     (case alloc_kind req of
        alloc_tlab \<Rightarrow> allocate_single_mutator dbg opts fs req in_new_region
      | alloc_shared \<Rightarrow> allocate_single_mutator dbg opts fs req in_new_region
      | alloc_gclab \<Rightarrow> allocate_single_gc dbg opts fs req in_new_region
      | alloc_shared_gc \<Rightarrow> allocate_single_gc dbg opts fs req in_new_region)"

subsection \<open>Allocation of a run of regions\<close>

text \<open>
  The \<^verbatim>\<open>for\<close> loop of \<^verbatim>\<open>allocate_contiguous\<close> that slides the window \<open>[beg, span_end)\<close>
  by \<open>slide_delta\<close> regions, or restarts the search after a region that is not a member.
  It returns the new \<open>beg\<close>.
\<close>

function slide_window ::
  "bool \<Rightarrow> ShenandoahRegionPartitions \<Rightarrow> size_t \<Rightarrow> int \<Rightarrow> int \<Rightarrow> int
     \<Rightarrow> (vm_error + int) option" where
  "slide_window dbg s num beg span_end slide_delta =
     (if slide_delta > 0 then
        (case in_free_set dbg s Mutator span_end of
           Inl e \<Rightarrow> Some (Inl e)
         | Inr is_member \<Rightarrow>
             if \<not> is_member
             then find_index_of_next_available_cluster_of_regions dbg s Mutator (span_end + 1) num
             else slide_window dbg s num (beg + 1) (span_end + 1) (slide_delta - 1))
      else Some (Inr beg))"
  by pat_completeness auto
termination
  by (relation "measure (\<lambda>(dbg, s, num, beg, span_end, slide_delta). nat slide_delta)") auto

declare slide_window.simps [simp del]

text \<open>
  The \<^verbatim>\<open>while (true)\<close> loop of \<^verbatim>\<open>allocate_contiguous\<close> with its inner \<^verbatim>\<open>while\<close>, entered
  with \<open>beg\<close> and \<open>end\<close>. \<open>Some (Inr None)\<close> is \<^verbatim>\<open>return nullptr\<close> and
  \<open>Some (Inr (Some (beg, end)))\<close> the \<^verbatim>\<open>break\<close> with the match.
\<close>

partial_function (option) contiguous_search ::
  "bool \<Rightarrow> ShenandoahHeap \<Rightarrow> ShenandoahRegionPartitions \<Rightarrow> int \<Rightarrow> size_t \<Rightarrow> int \<Rightarrow> int \<Rightarrow> int
     \<Rightarrow> (vm_error + (int \<times> int) option) option" where
  "contiguous_search dbg h s num cluster last_possible_start beg end_idx =
     (case get_region h end_idx of
        None \<Rightarrow> Some (Inl NullRegion)
      | Some r \<Rightarrow>
          if \<not> can_allocate_from h r then
            (let slide_delta = end_idx + 1 - beg
             in if beg + slide_delta > last_possible_start then Some (Inr None)
                else
                  (case slide_window dbg s cluster beg (beg + num) slide_delta of
                     None \<Rightarrow> None
                   | Some (Inl e) \<Rightarrow> Some (Inl e)
                   | Some (Inr beg') \<Rightarrow>
                       if beg' > last_possible_start then Some (Inr None)
                       else contiguous_search dbg h s num cluster last_possible_start beg' beg'))
          else if end_idx - beg + 1 = num then Some (Inr (Some (beg, end_idx)))
          else contiguous_search dbg h s num cluster last_possible_start beg (end_idx + 1))"

declare contiguous_search.simps [code]

text \<open>
  The loop \<^verbatim>\<open>for (ssize_t i = beg; i <= end; i++)\<close> that makes the regions humongous. Its
  assertion that the regions are contiguous compares \<open>i - 1 + 1\<close> with \<open>i\<close> when a region
  is its index, and is left out.
\<close>

function initialize_humongous ::
  "bool \<Rightarrow> vm_options \<Rightarrow> ShenandoahHeap \<Rightarrow> int \<Rightarrow> int \<Rightarrow> int \<Rightarrow> size_t \<Rightarrow> vm_error + ShenandoahHeap" where
  "initialize_humongous dbg opts h i beg end_idx remainder =
     (if i \<le> end_idx then
        (case get_region h i of
           None \<Rightarrow> Inl NullRegion
         | Some r0 \<Rightarrow>
             (let h1 = try_recycle_trashed h i r0;
                  r1 = (if is_trash r0 then recycle r0 else r0)
              in if assert_fails dbg (is_empty r1) then Inl AssertionFailure
                 else
                   (let r2 = r1\<lparr>state := (if i = beg then HumongousStartState
                                           else HumongousContState)\<rparr>;
                        used_words = (if i = end_idx \<and> remainder \<noteq> 0 then remainder
                                      else region_size_words opts);
                        r3 = r2\<lparr>update_watermark := 0, region_top := used_words * HeapWordSize\<rparr>
                    in initialize_humongous dbg opts (put_region h1 i r3) (i + 1) beg end_idx
                         remainder)))
      else Inr h)"
  by pat_completeness auto
termination
  by (relation "measure (\<lambda>(dbg, opts, h, i, beg, end_idx, remainder). nat (end_idx + 1 - i))") auto

declare initialize_humongous.simps [simp del]

text \<open>
  The end of \<^verbatim>\<open>allocate_contiguous\<close>, after the match \<open>[beg, end]\<close> has been found.
\<close>

definition allocate_contiguous_commit ::
  "bool \<Rightarrow> vm_options \<Rightarrow> ShenandoahFreeSet \<Rightarrow> ShenandoahAllocRequest \<Rightarrow> size_t \<Rightarrow> int \<Rightarrow> int
     \<Rightarrow> vm_error + HeapWordPtr option \<times> ShenandoahAllocRequest \<times> ShenandoahFreeSet" where
  "allocate_contiguous_commit dbg opts fs req regions_needed beg end_idx =
     (let words_size = requested_size req;
          remainder = words_size AND region_size_words_mask opts
      in case initialize_humongous dbg opts (heap fs) beg beg end_idx remainder of
           Inl e \<Rightarrow> Inl e
         | Inr h1 \<Rightarrow>
             (case retire_range_from_partition dbg (alloc_capacity_idx opts h1) (partitions fs)
                     Mutator beg end_idx of
                Inl e \<Rightarrow> Inl e
              | Inr p3 \<Rightarrow>
                  (case increase_used dbg p3 Mutator (region_size opts * regions_needed) of
                     Inl e \<Rightarrow> Inl e
                   | Inr p4 \<Rightarrow>
                       (case assert_bounds dbg (alloc_capacity_idx opts h1) p4 of
                          Inl e \<Rightarrow> Inl e
                        | Inr p5 \<Rightarrow>
                            Inr (Some (nat beg, 0), req\<lparr>actual_size := words_size\<rparr>,
                                 fs\<lparr>heap := h1, partitions := p5\<rparr>)))))"

text \<open>
  \<^verbatim>\<open>allocate_contiguous(req)\<close>. \<open>num\<close> is the \<^verbatim>\<open>ssize_t\<close> read of the number of regions; the
  searches take it as a \<^verbatim>\<open>size_t\<close> again. The result is the address or null, the request
  and the free set.
\<close>

definition allocate_contiguous ::
  "bool \<Rightarrow> vm_options \<Rightarrow> ShenandoahFreeSet \<Rightarrow> ShenandoahAllocRequest
     \<Rightarrow> (vm_error + HeapWordPtr option \<times> ShenandoahAllocRequest \<times> ShenandoahFreeSet) option" where
  "allocate_contiguous dbg opts fs req =
     (if assert_fails dbg (is_mutator_alloc req) then Some (Inl AssertionFailure)
      else
        (let words_size = requested_size req;
             regions_needed = required_regions opts (words_size * HeapWordSize);
             num = sint regions_needed
         in if num > sint (region_counts (partitions fs) Mutator) then Some (Inr (None, req, fs))
            else
              (case leftmost_empty dbg (alloc_capacity_idx opts (heap fs)) (partitions fs) Mutator of
                 Inl e \<Rightarrow> Some (Inl e)
               | Inr (start_range, p1) \<Rightarrow>
                   (case rightmost_empty dbg (alloc_capacity_idx opts (heap fs)) p1 Mutator of
                      Inl e \<Rightarrow> Some (Inl e)
                    | Inr (re, p2) \<Rightarrow>
                        (let end_range = re + 1;
                             last_possible_start = end_range - num;
                             fs1 = fs\<lparr>partitions := p2\<rparr>
                         in case find_index_of_next_available_cluster_of_regions dbg p2 Mutator
                                   start_range regions_needed of
                              None \<Rightarrow> None
                            | Some (Inl e) \<Rightarrow> Some (Inl e)
                            | Some (Inr beg0) \<Rightarrow>
                                if beg0 > last_possible_start then Some (Inr (None, req, fs1))
                                else
                                  (case contiguous_search dbg (heap fs1) p2 num
                                          regions_needed last_possible_start beg0 beg0 of
                                     None \<Rightarrow> None
                                   | Some (Inl e) \<Rightarrow> Some (Inl e)
                                   | Some (Inr None) \<Rightarrow> Some (Inr (None, req, fs1))
                                   | Some (Inr (Some (beg, end_idx))) \<Rightarrow>
                                       Some (allocate_contiguous_commit dbg opts fs1 req
                                               regions_needed beg end_idx)))))))"

subsection \<open>allocate\<close>

text \<open>
  \<^verbatim>\<open>allocate(req, in_new_region)\<close>. \<^verbatim>\<open>assert(false, ...)\<close> of the branch of the LAB requests
  stops a debug build; a product build goes on to \<^verbatim>\<open>return nullptr\<close>.
\<close>

definition allocate ::
  "bool \<Rightarrow> vm_options \<Rightarrow> ShenandoahFreeSet \<Rightarrow> ShenandoahAllocRequest \<Rightarrow> bool \<Rightarrow> alloc_outcome" where
  "allocate dbg opts fs req in_new_region =
     (if requested_size req > humongous_threshold_words opts then
        (case alloc_kind req of
           alloc_shared \<Rightarrow>
             map_option (map_sum id (\<lambda>(result, req', fs'). (result, True, req', fs')))
               (allocate_contiguous dbg opts fs req)
         | alloc_shared_gc \<Rightarrow>
             map_option (map_sum id (\<lambda>(result, req', fs'). (result, True, req', fs')))
               (allocate_contiguous dbg opts fs req)
         | alloc_gclab \<Rightarrow>
             if dbg then Some (Inl AssertionFailure) else Some (Inr (None, False, req, fs))
         | alloc_tlab \<Rightarrow>
             if dbg then Some (Inl AssertionFailure) else Some (Inr (None, False, req, fs)))
      else allocate_single dbg opts fs req in_new_region)"

subsection \<open>Returning the reserve to the mutator\<close>

text \<open>
  The two loops of \<^verbatim>\<open>move_regions_from_collector_to_mutator\<close>, entered with the first
  \<open>idx\<close> and the bound \<open>rightmost\<close> read before the loop. The first loop moves the regions
  of the Collector partition that \<^verbatim>\<open>can_allocate_from\<close> accepts, as regions with all their
  bytes available; the second moves every region with some capacity. The result is the free
  set and what is left of \<^verbatim>\<open>max_xfer_regions\<close>.
\<close>

partial_function (option) transfer_empty_regions ::
  "bool \<Rightarrow> vm_options \<Rightarrow> ShenandoahFreeSet \<Rightarrow> size_t \<Rightarrow> int \<Rightarrow> int
     \<Rightarrow> (vm_error + ShenandoahFreeSet \<times> size_t) option" where
  "transfer_empty_regions dbg opts fs max_xfer_regions idx rightmost_idx =
     (if max_xfer_regions > 0 \<and> idx \<le> rightmost_idx then
        (case assert_that dbg (in_free_set dbg (partitions fs) Collector idx) of
           Some e \<Rightarrow> Some (Inl e)
         | None \<Rightarrow>
             (case get_region (heap fs) idx of
                None \<Rightarrow> Some (Inl NullRegion)
              | Some r \<Rightarrow>
                  (case (if can_allocate_from (heap fs) r
                         then map_sum id (\<lambda>p. (p, max_xfer_regions - 1))
                                (move_from_partition_to_partition dbg
                                   (alloc_capacity_idx opts (heap fs)) (partitions fs) idx
                                   Collector Mutator (region_size opts))
                         else Inr (partitions fs, max_xfer_regions)) of
                     Inl e \<Rightarrow> Some (Inl e)
                   | Inr (p1, remaining) \<Rightarrow>
                       (case find_index_of_next_available_region dbg p1 Collector (idx + 1) of
                          Inl e \<Rightarrow> Some (Inl e)
                        | Inr idx' \<Rightarrow>
                            transfer_empty_regions dbg opts (fs\<lparr>partitions := p1\<rparr>) remaining
                              idx' rightmost_idx))))
      else Some (Inr (fs, max_xfer_regions)))"

declare transfer_empty_regions.simps [code]

partial_function (option) transfer_non_empty_regions ::
  "bool \<Rightarrow> vm_options \<Rightarrow> ShenandoahFreeSet \<Rightarrow> size_t \<Rightarrow> int \<Rightarrow> int
     \<Rightarrow> (vm_error + ShenandoahFreeSet \<times> size_t) option" where
  "transfer_non_empty_regions dbg opts fs max_xfer_regions idx rightmost_idx =
     (if max_xfer_regions > 0 \<and> idx \<le> rightmost_idx then
        (case assert_that dbg (in_free_set dbg (partitions fs) Collector idx) of
           Some e \<Rightarrow> Some (Inl e)
         | None \<Rightarrow>
             (case alloc_capacity_idx opts (heap fs) idx of
                Inl e \<Rightarrow> Some (Inl e)
              | Inr ac \<Rightarrow>
                  (case (if ac > 0
                         then map_sum id (\<lambda>p. (p, max_xfer_regions - 1))
                                (move_from_partition_to_partition dbg
                                   (alloc_capacity_idx opts (heap fs)) (partitions fs) idx
                                   Collector Mutator ac)
                         else Inr (partitions fs, max_xfer_regions)) of
                     Inl e \<Rightarrow> Some (Inl e)
                   | Inr (p1, remaining) \<Rightarrow>
                       (case find_index_of_next_available_region dbg p1 Collector (idx + 1) of
                          Inl e \<Rightarrow> Some (Inl e)
                        | Inr idx' \<Rightarrow>
                            transfer_non_empty_regions dbg opts (fs\<lparr>partitions := p1\<rparr>) remaining
                              idx' rightmost_idx))))
      else Some (Inr (fs, max_xfer_regions)))"

declare transfer_non_empty_regions.simps [code]

text \<open>
  The first \<^verbatim>\<open>if\<close> of \<^verbatim>\<open>move_regions_from_collector_to_mutator\<close>. The two operands of
  \<^verbatim>\<open>leftmost_empty(Collector) <= rightmost_empty(Collector)\<close> are evaluated from left to
  right here; both are evaluated once more for the loop.
\<close>

definition transfer_empty_phase ::
  "bool \<Rightarrow> vm_options \<Rightarrow> ShenandoahFreeSet \<Rightarrow> size_t
     \<Rightarrow> (vm_error + ShenandoahFreeSet \<times> size_t) option" where
  "transfer_empty_phase dbg opts fs max_xfer_regions =
     (if \<not> max_xfer_regions > 0 then Some (Inr (fs, max_xfer_regions))
      else
        let ac = alloc_capacity_idx opts (heap fs)
        in case leftmost_empty dbg ac (partitions fs) Collector of
             Inl e \<Rightarrow> Some (Inl e)
           | Inr (le, p1) \<Rightarrow>
               (case rightmost_empty dbg ac p1 Collector of
                  Inl e \<Rightarrow> Some (Inl e)
                | Inr (re, p2) \<Rightarrow>
                    if \<not> le \<le> re then Some (Inr (fs\<lparr>partitions := p2\<rparr>, max_xfer_regions))
                    else
                      (case rightmost_empty dbg ac p2 Collector of
                         Inl e \<Rightarrow> Some (Inl e)
                       | Inr (rightmost_idx, p3) \<Rightarrow>
                           (case leftmost_empty dbg ac p3 Collector of
                              Inl e \<Rightarrow> Some (Inl e)
                            | Inr (idx, p4) \<Rightarrow>
                                transfer_empty_regions dbg opts (fs\<lparr>partitions := p4\<rparr>)
                                  max_xfer_regions idx rightmost_idx))))"

definition move_regions_from_collector_to_mutator ::
  "bool \<Rightarrow> vm_options \<Rightarrow> ShenandoahFreeSet \<Rightarrow> size_t \<Rightarrow> (vm_error + ShenandoahFreeSet) option" where
  "move_regions_from_collector_to_mutator dbg opts fs max_xfer_regions =
     (case transfer_empty_phase dbg opts fs max_xfer_regions of
        None \<Rightarrow> None
      | Some (Inl e) \<Rightarrow> Some (Inl e)
      | Some (Inr (fs1, remaining)) \<Rightarrow>
          if remaining > 0 \<and> leftmost (partitions fs1) Collector \<le> rightmost (partitions fs1) Collector
          then map_option (map_sum id fst)
                 (transfer_non_empty_regions dbg opts fs1 remaining
                    (leftmost (partitions fs1) Collector) (rightmost (partitions fs1) Collector))
          else Some (Inr fs1))"

section \<open>Rebuild on concrete heaps\<close>

text \<open>
  A heap of regions of 1 MiB with the evacuation reserve at 20 percent of the heap's
  16 MiB; a TLAB or PLAB has 256 words at least, and \<open>min_capacity\<close> is what
  \<^verbatim>\<open>ShenandoahEvacWaste = 1.2\<close> gives.
\<close>

definition scenario_options :: vm_options where
  "scenario_options =
     \<lparr>region_size = 1048576, region_size_words = 131072, region_size_words_mask = 131071,
      humongous_threshold_words = 131072, MinObjAlignment = 1, PLAB_min_size = 256,
      max_capacity = 16777216, ShenandoahEvacReserve = 20, ShenandoahEvacReserveOverflow = True,
      min_capacity = 174762\<rparr>"

definition empty_region :: ShenandoahHeapRegion where
  "empty_region = \<lparr>state = EmptyState, region_top = 0, update_watermark = 0\<rparr>"

definition full_region :: ShenandoahHeapRegion where
  "full_region = \<lparr>state = RegularState, region_top = 1048576, update_watermark = 0\<rparr>"

definition heap_of :: "ShenandoahHeapRegion list \<Rightarrow> ShenandoahHeap" where
  "heap_of rs = \<lparr>regions = rs, concurrent_weak_root_in_progress = False, heap_used = 0\<rparr>"

text \<open>The free set as its constructor leaves it, over the given regions.\<close>

definition free_set_of :: "ShenandoahHeapRegion list \<Rightarrow> ShenandoahFreeSet" where
  "free_set_of rs = new_free_set scenario_options (heap_of rs) (length rs) (\<lambda>p i. 0)"

text \<open>For each partition its count and what \<^verbatim>\<open>leftmost\<close> and \<^verbatim>\<open>rightmost\<close> answer.\<close>

definition intervals ::
  "ShenandoahFreeSet \<Rightarrow> (size_t \<times> int \<times> int) \<times> (size_t \<times> int \<times> int)" where
  "intervals fs =
     (let s = partitions fs
      in ((region_counts s Mutator, leftmost s Mutator, rightmost s Mutator),
          (region_counts s Collector, leftmost s Collector, rightmost s Collector)))"

lemma rebuild_16_debug:
  "map_sum id intervals (rebuild True scenario_options (free_set_of (replicate 16 empty_region)))
     = Inr ((12, 0, 11), (4, 12, 15))"
  by code_simp

lemma rebuild_16_product:
  "map_sum id intervals (rebuild False scenario_options (free_set_of (replicate 16 empty_region)))
     = Inr ((12, 0, 11), (4, 12, 15))"
  by code_simp

text \<open>
  Claim C4, as amended. With 16 empty regions of 1 MiB and an evacuation reserve of 20
  percent, \<^verbatim>\<open>rebuild\<close> leaves 12 regions in the Mutator partition, with the interval
  \<open>[0, 11]\<close>, and 4 regions in the Collector partition, with the interval \<open>[12, 15]\<close>, in
  a debug build and in a product build. The reserve is 20 percent of 16 MiB, 3355443
  bytes, and \<^verbatim>\<open>reserve_regions\<close> moves regions until the Collector partition has that much
  available: three regions have 3145728 bytes, so a fourth one is moved.
\<close>

theorem rebuild_sixteen_empty_regions:
  "map_sum id intervals (rebuild dbg scenario_options (free_set_of (replicate 16 empty_region)))
     = Inr ((12, 0, 11), (4, 12, 15))"
  by (cases dbg) (simp_all only: rebuild_16_debug rebuild_16_product)

text \<open>
  Claim C4 as stated fails: the counts are not 13 and 3, and the intervals are not
  \<open>[0, 12]\<close> and \<open>[13, 15]\<close>.
\<close>

theorem rebuild_sixteen_not_thirteen:
  "map_sum id intervals (rebuild True scenario_options (free_set_of (replicate 16 empty_region)))
     \<noteq> Inr ((13, 0, 12), (3, 13, 15))"
  by (simp only: rebuild_16_debug) simp

lemma rebuild_full_debug:
  "map_sum id intervals (rebuild True scenario_options (free_set_of (replicate 4 full_region)))
     = Inr ((0, 4, 0), (0, 4, - 1))"
  by code_simp

lemma rebuild_full_product:
  "map_sum id intervals (rebuild False scenario_options (free_set_of (replicate 4 full_region)))
     = Inr ((0, 4, 0), (0, 4, - 1))"
  by code_simp

text \<open>
  Claim C5: a partition without regions has the interval \<open>[max_regions, -1]\<close>. The code
  does not do this after a rebuild that finds no region for the Mutator partition. Over a
  heap of four full regions, \<^verbatim>\<open>rebuild\<close> leaves no region in either partition and
  \<open>leftmost(Mutator) = 4\<close>, but \<open>rightmost(Mutator) = 0\<close>:
  \<^verbatim>\<open>find_regions_with_alloc_capacity\<close> starts its running maximum at 0 and hands it to
  \<^verbatim>\<open>establish_intervals\<close>. The Collector partition gets \<open>[4, -1]\<close>.
\<close>

theorem rebuild_without_mutator_regions:
  "map_sum id intervals (rebuild dbg scenario_options (free_set_of (replicate 4 full_region)))
     = Inr ((0, 4, 0), (0, 4, - 1))"
  by (cases dbg) (simp_all only: rebuild_full_debug rebuild_full_product)

section \<open>The dispatch of allocate\<close>

definition humongous_request :: "alloc_type \<Rightarrow> ShenandoahAllocRequest" where
  "humongous_request kind =
     \<lparr>requested_size = 200000, min_size = 1024, alloc_kind = kind, actual_size = 0\<rparr>"

text \<open>
  Claim C9. A request for a TLAB or a GCLAB of more than \<^verbatim>\<open>humongous_threshold_words\<close>
  words fails the assertion of \<^verbatim>\<open>allocate\<close> in a debug build. A product build answers
  null, with \<^verbatim>\<open>in_new_region\<close> false, and leaves the request and the free set as they
  were. Neither \<^verbatim>\<open>allocate_single\<close> nor \<^verbatim>\<open>allocate_contiguous\<close> is called: the answer is
  the same for every free set, also where their loops would not end.
\<close>

theorem allocate_humongous_lab:
  assumes "is_lab_alloc req" and "requested_size req > humongous_threshold_words opts"
  shows "allocate dbg opts fs req in_new_region =
           (if dbg then Some (Inl AssertionFailure) else Some (Inr (None, False, req, fs)))"
  using assms by (auto simp: allocate_def is_lab_alloc_def)

theorem allocate_humongous_lab_witness:
  "is_lab_alloc (humongous_request alloc_tlab) \<and>
   requested_size (humongous_request alloc_tlab) > humongous_threshold_words scenario_options \<and>
   allocate True scenario_options (free_set_of []) (humongous_request alloc_tlab) True
     = Some (Inl AssertionFailure) \<and>
   allocate False scenario_options (free_set_of []) (humongous_request alloc_gclab) True
     = Some (Inr (None, False, humongous_request alloc_gclab, free_set_of []))"
  using allocate_humongous_lab [of "humongous_request alloc_tlab" scenario_options True
          "free_set_of []" True]
        allocate_humongous_lab [of "humongous_request alloc_gclab" scenario_options False
          "free_set_of []" True]
  by (simp add: is_lab_alloc_def humongous_request_def scenario_options_def)

text \<open>
  Claim C10. A request of kind \<^verbatim>\<open>_alloc_shared_gc\<close> for more than
  \<^verbatim>\<open>humongous_threshold_words\<close> words is not a mutator allocation, and \<^verbatim>\<open>allocate\<close> hands
  it to \<^verbatim>\<open>allocate_contiguous\<close>, whose first assertion is that the request is a mutator
  allocation: in a debug build the call of \<^verbatim>\<open>allocate\<close> stops there, for every free set.
\<close>

theorem allocate_humongous_shared_gc:
  assumes "alloc_kind req = alloc_shared_gc"
    and "requested_size req > humongous_threshold_words opts"
  shows "\<not> is_mutator_alloc req \<and>
         allocate dbg opts fs req in_new_region =
           map_option (map_sum id (\<lambda>(result, req', fs'). (result, True, req', fs')))
             (allocate_contiguous dbg opts fs req) \<and>
         allocate_contiguous True opts fs req = Some (Inl AssertionFailure) \<and>
         allocate True opts fs req in_new_region = Some (Inl AssertionFailure)"
  using assms by (simp add: allocate_def allocate_contiguous_def is_mutator_alloc_def assert_fails_def)

theorem allocate_humongous_shared_gc_witness:
  "alloc_kind (humongous_request alloc_shared_gc) = alloc_shared_gc \<and>
   requested_size (humongous_request alloc_shared_gc)
     > humongous_threshold_words scenario_options \<and>
   \<not> is_mutator_alloc (humongous_request alloc_shared_gc) \<and>
   allocate True scenario_options (free_set_of (replicate 16 empty_region))
     (humongous_request alloc_shared_gc) False = Some (Inl AssertionFailure)"
  using allocate_humongous_shared_gc [of "humongous_request alloc_shared_gc" scenario_options
          True "free_set_of (replicate 16 empty_region)" False]
  by (simp add: humongous_request_def scenario_options_def)

section \<open>Properties of the partition table\<close>

subsection \<open>Single bits\<close>

lemma bit_pos_eq:
  assumes "0 \<le> i" "0 \<le> j" "nat j div 64 = nat i div 64" "nat j mod 64 = nat i mod 64"
  shows "j = i"
proof -
  have "nat j = nat i" using assms(3,4) by (metis div_mult_mod_eq)
  then show ?thesis using assms(1,2) by simp
qed

lemma bit_at_set_bit:
  assumes "set_bit_bm dbg bm idx = Inr bm'" and "0 \<le> j"
  shows "bit_at bm' j = (j = idx \<or> bit_at bm j)"
proof -
  have rng: "0 \<le> idx" and bm': "bm' = bitmap_store bm (nat idx div 64)
      (bitmap bm (nat idx div 64) OR push_bit (nat idx mod 64) 1)"
    using assms(1) by (auto simp: set_bit_bm_def Let_def in_range_def split: if_splits)
  show ?thesis
  proof (cases "nat j div 64 = nat idx div 64")
    case True
    have "bit_at bm' j = (bit (bitmap bm (nat j div 64)) (nat j mod 64) \<or> nat j mod 64 = nat idx mod 64)"
      using True by (auto simp: bit_at_def bm' bit_or_iff bit_push_bit_iff bit_1_iff simp del: push_bit_of_1)
    moreover have "(nat j mod 64 = nat idx mod 64) = (j = idx)"
      using bit_pos_eq [OF rng assms(2) True] by auto
    ultimately show ?thesis by (auto simp: bit_at_def)
  next
    case False
    then have "j \<noteq> idx" by auto
    then show ?thesis using False by (simp add: bit_at_def bm')
  qed
qed

lemma bit_at_clear_bit:
  assumes "clear_bit_bm dbg bm idx = Inr bm'" and "0 \<le> j"
  shows "bit_at bm' j = (j \<noteq> idx \<and> bit_at bm j)"
proof -
  have rng: "0 \<le> idx" and bm': "bm' = bitmap_store bm (nat idx div 64)
      (bitmap bm (nat idx div 64) AND NOT (push_bit (nat idx mod 64) 1))"
    using assms(1) by (auto simp: clear_bit_bm_def Let_def in_range_def split: if_splits)
  show ?thesis
  proof (cases "nat j div 64 = nat idx div 64")
    case True
    have "bit_at bm' j = (bit (bitmap bm (nat j div 64)) (nat j mod 64) \<and> nat j mod 64 \<noteq> nat idx mod 64)"
      using True by (auto simp: bit_at_def bm' bit_and_iff bit_not_iff bit_push_bit_iff bit_1_iff
          dest: bit_imp_le_length simp del: push_bit_of_1)
    moreover have "(nat j mod 64 = nat idx mod 64) = (j = idx)"
      using bit_pos_eq [OF rng assms(2) True] by auto
    ultimately show ?thesis by (auto simp: bit_at_def)
  next
    case False
    then have "j \<noteq> idx" by auto
    then show ?thesis using False by (simp add: bit_at_def bm')
  qed
qed

lemma set_bit_in_range: "set_bit_bm dbg bm idx = Inr bm' \<Longrightarrow> 0 \<le> idx \<and> idx < num_bits bm"
  by (auto simp: set_bit_bm_def in_range_def split: if_splits)


lemma set_bit_shape:
  "set_bit_bm dbg bm idx = Inr bm' \<Longrightarrow> num_bits bm' = num_bits bm \<and> num_words bm' = num_words bm"
  by (auto simp: set_bit_bm_def Let_def split: if_splits)

lemma clear_bit_shape:
  "clear_bit_bm dbg bm idx = Inr bm' \<Longrightarrow> num_bits bm' = num_bits bm \<and> num_words bm' = num_words bm"
  by (auto simp: clear_bit_bm_def Let_def split: if_splits)

lemma bit_at_clear_all:
  assumes "0 \<le> j" "nat j < 64 * num_words bm"
  shows "\<not> bit_at (clear_all bm) j"
proof -
  have "nat j div 64 < num_words bm" using assms(2) by simp
  then show ?thesis by (simp add: bit_at_def bitmap_def clear_all_def num_words_def)
qed

subsection \<open>The scans for the empty bounds\<close>

text \<open>
  The predicates of this section are for stating properties only. \<open>in_interval\<close> is
  \<open>leftmost \<le> j \<le> rightmost\<close> with the accessors of the code, and an \<open>empty_member\<close> is a
  region of the interval whose bit is set and whose \<^verbatim>\<open>alloc_capacity\<close> is the region size.
\<close>

definition in_interval :: "ShenandoahRegionPartitions \<Rightarrow> ShenandoahFreeSetPartitionId \<Rightarrow> int \<Rightarrow> bool" where
  "in_interval s p j = (leftmost s p \<le> j \<and> j \<le> rightmost s p)"

lemma next_available_cases:
  assumes "find_index_of_next_available_region dbg s p start = Inr r"
  shows "(r = max_regions s \<or> (start \<le> r \<and> in_interval s p r \<and> bit_at (membership s p) r)) \<and>
         (\<forall>j. start \<le> j \<and> j < r \<and> in_interval s p j \<longrightarrow> \<not> bit_at (membership s p) j)"
proof -
  have le: "leftmost s p \<le> max_regions s" by (simp add: leftmost_def Let_def)
  from find_index_of_next_available_region_result [OF assms]
  show ?thesis unfolding in_interval_def by auto
qed

definition empty_member :: "capacity_query \<Rightarrow> ShenandoahRegionPartitions \<Rightarrow> ShenandoahFreeSetPartitionId \<Rightarrow> int \<Rightarrow> bool" where
  "empty_member ac s p j =
     (in_interval s p j \<and> bit_at (membership s p) j \<and> ac j = Inr (region_size_bytes s))"

text \<open>
  What the loop of \<^verbatim>\<open>leftmost_empty\<close> returns when entered with \<open>idx\<close>: either nothing was
  found and both empty bounds are reset, or the first empty member from \<open>idx\<close> on, which is
  memoized.
\<close>

definition leftmost_empty_post ::
  "capacity_query \<Rightarrow> ShenandoahRegionPartitions \<Rightarrow> ShenandoahFreeSetPartitionId \<Rightarrow> int \<Rightarrow> int
     \<Rightarrow> ShenandoahRegionPartitions \<Rightarrow> bool" where
  "leftmost_empty_post ac s p idx i s' =
     (((i = max_regions s \<and>
          s' = s\<lparr>leftmosts_empty := (leftmosts_empty s)(p := max_regions s),
                 rightmosts_empty := (rightmosts_empty s)(p := - 1)\<rparr>) \<or>
       (idx \<le> i \<and> i < max_regions s \<and> empty_member ac s p i \<and>
          s' = s\<lparr>leftmosts_empty := (leftmosts_empty s)(p := i)\<rparr>)) \<and>
      (\<forall>j. idx \<le> j \<and> j < i \<longrightarrow> \<not> empty_member ac s p j))"

lemma leftmost_empty_loop_spec:
  "leftmost_empty_loop dbg ac s p idx = Inr (i, s') \<Longrightarrow>
   idx < max_regions s \<longrightarrow> in_interval s p idx \<and> bit_at (membership s p) idx \<Longrightarrow>
   leftmost_empty_post ac s p idx i s'"
proof (induction dbg ac s p idx rule: leftmost_empty_loop.induct)
  case (1 dbg ac s p idx)
  note unf = leftmost_empty_loop.simps [of dbg ac s p idx]
  show ?case
  proof (cases "idx < max_regions s")
    case False
    then have "leftmost_empty_loop dbg ac s p idx =
        Inr (max_regions s, s\<lparr>leftmosts_empty := (leftmosts_empty s)(p := max_regions s),
                rightmosts_empty := (rightmosts_empty s)(p := - 1)\<rparr>)"
      using unf by simp
    then have "i = max_regions s"
        "s' = s\<lparr>leftmosts_empty := (leftmosts_empty s)(p := max_regions s),
                rightmosts_empty := (rightmosts_empty s)(p := - 1)\<rparr>"
      unfolding 1(2) by simp_all
    then show ?thesis using False by (auto simp: leftmost_empty_post_def)
  next
    case True
    then have here: "in_interval s p idx" "bit_at (membership s p) idx" using 1(3) by simp_all
    have na: "assert_that dbg (in_free_set dbg s p idx) = None"
      using 1(2) unf True by (auto split: option.splits)
    obtain c where c: "ac idx = Inr c"
      using 1(2) unf True na by (auto split: sum.splits)
    show ?thesis
    proof (cases "c = region_size_bytes s")
      case ceq: True
      then have "leftmost_empty_loop dbg ac s p idx =
          Inr (idx, s\<lparr>leftmosts_empty := (leftmosts_empty s)(p := idx)\<rparr>)"
        using unf True na c by simp
      then have "i = idx" "s' = s\<lparr>leftmosts_empty := (leftmosts_empty s)(p := idx)\<rparr>"
        unfolding 1(2) by simp_all
      then show ?thesis using True here c ceq
        by (auto simp: leftmost_empty_post_def empty_member_def)
    next
      case cne: False
      obtain idx' where nx: "find_index_of_next_available_region dbg s p (idx + 1) = Inr idx'"
        and rec: "leftmost_empty_loop dbg ac s p idx' = Inr (i, s')"
        using 1(2) unf True na c cne by (auto split: sum.splits)
      note nc = next_available_cases [OF nx]
      have pre: "idx' < max_regions s \<longrightarrow> in_interval s p idx' \<and> bit_at (membership s p) idx'"
        using nc by auto
      have post: "leftmost_empty_post ac s p idx' i s'"
        using 1(1) [OF True na c cne nx rec pre] .
      have ge: "idx + 1 \<le> idx' \<or> idx' = max_regions s" using nc by auto
      have skip: "\<not> empty_member ac s p j" if "idx \<le> j" "j < idx'" for j
      proof (cases "j = idx")
        case True then show ?thesis using c cne by (simp add: empty_member_def)
      next
        case False
        then have "idx + 1 \<le> j" using that by simp
        then show ?thesis using nc that by (auto simp: empty_member_def)
      qed
      have imax: "i \<le> max_regions s" using post by (auto simp: leftmost_empty_post_def)
      have lo: "idx \<le> i \<or> i = max_regions s" using post ge by (auto simp: leftmost_empty_post_def)
      have "\<not> empty_member ac s p j" if "idx \<le> j" "j < i" for j
      proof (cases "j < idx'")
        case True then show ?thesis using skip that by simp
      next
        case False
        then show ?thesis using post that by (simp add: leftmost_empty_post_def)
      qed
      moreover have "(i = max_regions s \<and>
          s' = s\<lparr>leftmosts_empty := (leftmosts_empty s)(p := max_regions s),
                 rightmosts_empty := (rightmosts_empty s)(p := - 1)\<rparr>) \<or>
       (idx \<le> i \<and> i < max_regions s \<and> empty_member ac s p i \<and>
          s' = s\<lparr>leftmosts_empty := (leftmosts_empty s)(p := i)\<rparr>)"
        using post ge True by (auto simp: leftmost_empty_post_def)
      ultimately show ?thesis by (simp add: leftmost_empty_post_def)
    qed
  qed
qed

lemma previous_available_cases:
  assumes "find_index_of_previous_available_region dbg s p lst = Inr r"
  shows "(r = - 1 \<or> (r \<le> lst \<and> in_interval s p r \<and> bit_at (membership s p) r)) \<and>
         (\<forall>j. 0 \<le> j \<and> r < j \<and> j \<le> lst \<and> in_interval s p j \<longrightarrow> \<not> bit_at (membership s p) j)"
  using find_index_of_previous_available_region_result [OF assms]
  unfolding in_interval_def by auto

definition rightmost_empty_post ::
  "capacity_query \<Rightarrow> ShenandoahRegionPartitions \<Rightarrow> ShenandoahFreeSetPartitionId \<Rightarrow> int \<Rightarrow> int
     \<Rightarrow> ShenandoahRegionPartitions \<Rightarrow> bool" where
  "rightmost_empty_post ac s p idx i s' =
     (((i = - 1 \<and>
          s' = s\<lparr>leftmosts_empty := (leftmosts_empty s)(p := max_regions s),
                 rightmosts_empty := (rightmosts_empty s)(p := - 1)\<rparr>) \<or>
       (0 \<le> i \<and> i \<le> idx \<and> empty_member ac s p i \<and>
          s' = s\<lparr>rightmosts_empty := (rightmosts_empty s)(p := i)\<rparr>)) \<and>
      (\<forall>j. 0 \<le> j \<and> i < j \<and> j \<le> idx \<longrightarrow> \<not> empty_member ac s p j))"

lemma rightmost_empty_loop_spec:
  "rightmost_empty_loop dbg ac s p idx = Inr (i, s') \<Longrightarrow>
   0 \<le> idx \<longrightarrow> in_interval s p idx \<and> bit_at (membership s p) idx \<Longrightarrow>
   rightmost_empty_post ac s p idx i s'"
proof (induction dbg ac s p idx rule: rightmost_empty_loop.induct)
  case (1 dbg ac s p idx)
  note unf = rightmost_empty_loop.simps [of dbg ac s p idx]
  show ?case
  proof (cases "0 \<le> idx")
    case False
    then have "rightmost_empty_loop dbg ac s p idx =
        Inr (- 1, s\<lparr>leftmosts_empty := (leftmosts_empty s)(p := max_regions s),
                rightmosts_empty := (rightmosts_empty s)(p := - 1)\<rparr>)"
      using unf by simp
    then have "i = - 1"
        "s' = s\<lparr>leftmosts_empty := (leftmosts_empty s)(p := max_regions s),
                rightmosts_empty := (rightmosts_empty s)(p := - 1)\<rparr>"
      unfolding 1(2) by simp_all
    then show ?thesis using False by (auto simp: rightmost_empty_post_def)
  next
    case True
    then have here: "in_interval s p idx" "bit_at (membership s p) idx" using 1(3) by simp_all
    have na: "assert_that dbg (in_free_set dbg s p idx) = None"
      using 1(2) unf True by (auto split: option.splits)
    obtain c where c: "ac idx = Inr c"
      using 1(2) unf True na by (auto split: sum.splits)
    show ?thesis
    proof (cases "c = region_size_bytes s")
      case ceq: True
      then have "rightmost_empty_loop dbg ac s p idx =
          Inr (idx, s\<lparr>rightmosts_empty := (rightmosts_empty s)(p := idx)\<rparr>)"
        using unf True na c by simp
      then have "i = idx" "s' = s\<lparr>rightmosts_empty := (rightmosts_empty s)(p := idx)\<rparr>"
        unfolding 1(2) by simp_all
      then show ?thesis using True here c ceq
        by (auto simp: rightmost_empty_post_def empty_member_def)
    next
      case cne: False
      obtain idx' where nx: "find_index_of_previous_available_region dbg s p (idx - 1) = Inr idx'"
        and rec: "rightmost_empty_loop dbg ac s p idx' = Inr (i, s')"
        using 1(2) unf True na c cne by (auto split: sum.splits)
      note nc = previous_available_cases [OF nx]
      have pre: "0 \<le> idx' \<longrightarrow> in_interval s p idx' \<and> bit_at (membership s p) idx'"
        using nc by auto
      have post: "rightmost_empty_post ac s p idx' i s'"
        using 1(1) [OF True na c cne nx rec pre] .
      have ge: "idx' \<le> idx - 1" using nc True by auto
      have skip: "\<not> empty_member ac s p j" if "0 \<le> j" "idx' < j" "j \<le> idx" for j
      proof (cases "j = idx")
        case True then show ?thesis using c cne by (simp add: empty_member_def)
      next
        case False
        then have "j \<le> idx - 1" using that by simp
        then show ?thesis using nc that by (auto simp: empty_member_def)
      qed
      have "\<not> empty_member ac s p j" if "0 \<le> j" "i < j" "j \<le> idx" for j
      proof (cases "idx' < j")
        case True then show ?thesis using skip that by simp
      next
        case False
        then show ?thesis using post that by (simp add: rightmost_empty_post_def)
      qed
      moreover have "(i = - 1 \<and>
          s' = s\<lparr>leftmosts_empty := (leftmosts_empty s)(p := max_regions s),
                 rightmosts_empty := (rightmosts_empty s)(p := - 1)\<rparr>) \<or>
       (0 \<le> i \<and> i \<le> idx \<and> empty_member ac s p i \<and>
          s' = s\<lparr>rightmosts_empty := (rightmosts_empty s)(p := i)\<rparr>)"
        using post ge True by (auto simp: rightmost_empty_post_def)
      ultimately show ?thesis by (simp add: rightmost_empty_post_def)
    qed
  qed
qed

text \<open>The two queries, which start from the cached bounds.\<close>

lemma leftmost_empty_spec:
  assumes "leftmost_empty dbg ac s p = Inr (i, s')"
  shows "(leftmosts_empty s p = max_regions s \<and> i = max_regions s \<and> s' = s) \<or>
         (leftmosts_empty s p \<noteq> max_regions s \<and>
          leftmost_empty_post ac s p (leftmosts_empty s p) i s')"
proof (cases "leftmosts_empty s p = max_regions s")
  case True
  then show ?thesis using assms by (auto simp: leftmost_empty_def)
next
  case False
  obtain idx where nx: "find_index_of_next_available_region dbg s p (leftmosts_empty s p) = Inr idx"
    and lp: "leftmost_empty_loop dbg ac s p idx = Inr (i, s')"
    using assms False by (auto simp: leftmost_empty_def split: sum.splits)
  note nc = next_available_cases [OF nx]
  have pre: "idx < max_regions s \<longrightarrow> in_interval s p idx \<and> bit_at (membership s p) idx"
    using nc by auto
  note post = leftmost_empty_loop_spec [OF lp pre]
  have ge: "leftmosts_empty s p \<le> idx \<or> idx = max_regions s" using nc by auto
  have "\<not> empty_member ac s p j" if "leftmosts_empty s p \<le> j" "j < i" for j
  proof (cases "j < idx")
    case True then show ?thesis using nc that by (auto simp: empty_member_def)
  next
    case False then show ?thesis using post that by (simp add: leftmost_empty_post_def)
  qed
  moreover have "(i = max_regions s \<and>
          s' = s\<lparr>leftmosts_empty := (leftmosts_empty s)(p := max_regions s),
                 rightmosts_empty := (rightmosts_empty s)(p := - 1)\<rparr>) \<or>
       (leftmosts_empty s p \<le> i \<and> i < max_regions s \<and> empty_member ac s p i \<and>
          s' = s\<lparr>leftmosts_empty := (leftmosts_empty s)(p := i)\<rparr>)"
    using post ge by (auto simp: leftmost_empty_post_def)
  ultimately show ?thesis using False by (simp add: leftmost_empty_post_def)
qed

lemma rightmost_empty_spec:
  assumes "rightmost_empty dbg ac s p = Inr (i, s')"
  shows "(rightmosts_empty s p < 0 \<and> i = - 1 \<and> s' = s) \<or>
         (0 \<le> rightmosts_empty s p \<and>
          rightmost_empty_post ac s p (rightmosts_empty s p) i s')"
proof (cases "rightmosts_empty s p < 0")
  case True
  then show ?thesis using assms by (auto simp: rightmost_empty_def)
next
  case False
  obtain idx where nx: "find_index_of_previous_available_region dbg s p (rightmosts_empty s p) = Inr idx"
    and lp: "rightmost_empty_loop dbg ac s p idx = Inr (i, s')"
    using assms False by (auto simp: rightmost_empty_def split: sum.splits)
  note nc = previous_available_cases [OF nx]
  have pre: "0 \<le> idx \<longrightarrow> in_interval s p idx \<and> bit_at (membership s p) idx"
    using nc by auto
  note post = rightmost_empty_loop_spec [OF lp pre]
  have ge: "idx \<le> rightmosts_empty s p" using nc False by auto
  have "\<not> empty_member ac s p j" if "0 \<le> j" "i < j" "j \<le> rightmosts_empty s p" for j
  proof (cases "idx < j")
    case True then show ?thesis using nc that by (auto simp: empty_member_def)
  next
    case False then show ?thesis using post that by (simp add: rightmost_empty_post_def)
  qed
  moreover have "(i = - 1 \<and>
          s' = s\<lparr>leftmosts_empty := (leftmosts_empty s)(p := max_regions s),
                 rightmosts_empty := (rightmosts_empty s)(p := - 1)\<rparr>) \<or>
       (0 \<le> i \<and> i \<le> rightmosts_empty s p \<and> empty_member ac s p i \<and>
          s' = s\<lparr>rightmosts_empty := (rightmosts_empty s)(p := i)\<rparr>)"
    using post ge by (auto simp: rightmost_empty_post_def)
  ultimately show ?thesis using False by (simp add: rightmost_empty_post_def)
qed

subsection \<open>What the interval maintenance leaves alone\<close>

text \<open>
  \<open>same_core\<close>: two tables differ in their four interval bounds at most.
\<close>

definition same_core :: "ShenandoahRegionPartitions \<Rightarrow> ShenandoahRegionPartitions \<Rightarrow> bool" where
  "same_core s s' =
     (max_regions s' = max_regions s \<and> region_size_bytes s' = region_size_bytes s \<and>
      membership s' = membership s \<and> capacity s' = capacity s \<and> used s' = used s \<and>
      region_counts s' = region_counts s)"

lemma same_core_refl [simp]: "same_core s s"
  by (simp add: same_core_def)


lemma same_core_hints [simp]:
  "same_core s (s\<lparr>leftmosts := a\<rparr>)" "same_core s (s\<lparr>rightmosts := b\<rparr>)"
  "same_core s (s\<lparr>leftmosts_empty := c\<rparr>)" "same_core s (s\<lparr>rightmosts_empty := d\<rparr>)"
  by (simp_all add: same_core_def)

lemma leftmost_empty_same_core:
  "leftmost_empty dbg ac s p = Inr (i, s') \<Longrightarrow> same_core s s'"
  using leftmost_empty_spec [of dbg ac s p i s']
  by (auto simp: leftmost_empty_post_def same_core_def)

lemma rightmost_empty_same_core:
  "rightmost_empty dbg ac s p = Inr (i, s') \<Longrightarrow> same_core s s'"
  using rightmost_empty_spec [of dbg ac s p i s']
  by (auto simp: rightmost_empty_post_def same_core_def)

lemma shrink_low_boundary_same_core:
  assumes "shrink_low_boundary dbg ac s p low high = Inr s'"
  shows "same_core s s'"
proof (cases "low = leftmost s p")
  case False
  then show ?thesis using assms by (simp add: shrink_low_boundary_def)
next
  case True
  obtain nl le s2 where
    le: "leftmost_empty dbg ac (s\<lparr>leftmosts := (leftmosts s)(p := nl)\<rparr>) p = Inr (le, s2)"
    and s': "s' = s2 \<or> s' = s2\<lparr>leftmosts_empty := (leftmosts_empty s2)(p := leftmost s2 p)\<rparr>"
    using assms True
    by (auto simp: shrink_low_boundary_def Let_def split: option.splits sum.splits if_splits)
  have "same_core (s\<lparr>leftmosts := (leftmosts s)(p := nl)\<rparr>) s2"
    using le by (rule leftmost_empty_same_core)
  then have "same_core s s2" by (simp add: same_core_def)
  then show ?thesis using s' by (auto simp: same_core_def)
qed

lemma shrink_high_boundary_same_core:
  assumes "shrink_high_boundary dbg ac s p low high = Inr s'"
  shows "same_core s s'"
proof (cases "high = rightmost s p")
  case False
  then show ?thesis using assms by (simp add: shrink_high_boundary_def)
next
  case True
  obtain nr re s2 where
    re: "rightmost_empty dbg ac (s\<lparr>rightmosts := (rightmosts s)(p := nr)\<rparr>) p = Inr (re, s2)"
    and s': "s' = s2 \<or> s' = s2\<lparr>rightmosts_empty := (rightmosts_empty s2)(p := rightmost s2 p)\<rparr>"
    using assms True
    by (auto simp: shrink_high_boundary_def Let_def split: option.splits sum.splits if_splits)
  have "same_core (s\<lparr>rightmosts := (rightmosts s)(p := nr)\<rparr>) s2"
    using re by (rule rightmost_empty_same_core)
  then have "same_core s s2" by (simp add: same_core_def)
  then show ?thesis using s' by (auto simp: same_core_def)
qed

lemma reset_if_interval_empty_same_core: "same_core s (reset_if_interval_empty s p)"
  by (simp add: reset_if_interval_empty_def same_core_def)

lemma shrink_interval_if_boundary_modified_same_core:
  assumes "shrink_interval_if_boundary_modified dbg ac s p idx = Inr s'"
  shows "same_core s s'"
proof -
  obtain s1 s2 where "shrink_low_boundary dbg ac s p idx idx = Inr s1"
    "shrink_high_boundary dbg ac s1 p idx idx = Inr s2" "s' = reset_if_interval_empty s2 p"
    using assms by (auto simp: shrink_interval_if_boundary_modified_def split: if_splits sum.splits)
  then show ?thesis
    using shrink_low_boundary_same_core [of dbg ac s p _ _ s1]
      shrink_high_boundary_same_core [of dbg ac s1 p _ _ s2]
      reset_if_interval_empty_same_core [of s2 p]
    by (auto simp: same_core_def)
qed

lemma shrink_interval_if_range_modifies_either_boundary_same_core:
  assumes "shrink_interval_if_range_modifies_either_boundary dbg ac s p low high = Inr s'"
  shows "same_core s s'"
proof -
  obtain s1 s2 where "shrink_low_boundary dbg ac s p low high = Inr s1"
    "shrink_high_boundary dbg ac s1 p low high = Inr s2" "s' = reset_if_interval_empty s2 p"
    using assms
    by (auto simp: shrink_interval_if_range_modifies_either_boundary_def split: if_splits sum.splits)
  then show ?thesis
    using shrink_low_boundary_same_core [of dbg ac s p _ _ s1]
      shrink_high_boundary_same_core [of dbg ac s1 p _ _ s2]
      reset_if_interval_empty_same_core [of s2 p]
    by (auto simp: same_core_def)
qed

lemma expand_interval_if_boundary_modified_same_core:
  assumes "expand_interval_if_boundary_modified dbg ac s p idx available = Inr s'"
  shows "same_core s s'"
  using assms
  by (auto simp: expand_interval_if_boundary_modified_def Let_def same_core_def
      split: sum.splits if_splits
      dest!: leftmost_empty_same_core rightmost_empty_same_core)

subsection \<open>What the operations change\<close>

lemma clear_range_effect:
  "clear_range dbg s p idx high = Inr s' \<Longrightarrow>
   s' = s\<lparr>membership := membership s'\<rparr> \<and>
   (\<forall>q. q \<noteq> p \<longrightarrow> membership s' q = membership s q) \<and>
   num_bits (membership s' p) = num_bits (membership s p) \<and>
   num_words (membership s' p) = num_words (membership s p) \<and>
   (\<forall>j\<ge>0. bit_at (membership s' p) j = (bit_at (membership s p) j \<and> \<not> (idx \<le> j \<and> j \<le> high)))"
proof (induction dbg s p idx high rule: clear_range.induct)
  case (1 dbg s p idx high)
  note unf = clear_range.simps [of dbg s p idx high]
  show ?case
  proof (cases "idx \<le> high")
    case False
    then have "s' = s" using 1(2) unf by simp
    then show ?thesis using False by auto
  next
    case True
    have na: "assert_that dbg (in_free_set dbg s p idx) = None"
      using 1(2) unf True by (auto split: option.splits)
    obtain bm1 where cb: "clear_bit_bm dbg (membership s p) idx = Inr bm1"
      using 1(2) unf True na by (cases "clear_bit_bm dbg (membership s p) idx") simp_all
    define s1 where "s1 = s\<lparr>membership := (membership s)(p := bm1)\<rparr>"
    have rec: "clear_range dbg s1 p (idx + 1) high = Inr s'"
      using 1(2) unf True na cb by (simp add: s1_def)
    note ih = 1(1) [OF True na cb rec [unfolded s1_def], folded s1_def]
    have m1: "membership s1 p = bm1" "\<And>q. q \<noteq> p \<Longrightarrow> membership s1 q = membership s q"
      by (simp_all add: s1_def)
    have a: "s' = s\<lparr>membership := membership s'\<rparr>"
    proof -
      have "s' = s1\<lparr>membership := membership s'\<rparr>" using ih by blast
      then show ?thesis by (simp add: s1_def)
    qed
    have b: "\<forall>q. q \<noteq> p \<longrightarrow> membership s' q = membership s q" using ih m1(2) by simp
    have c: "num_bits (membership s' p) = num_bits (membership s p)"
      "num_words (membership s' p) = num_words (membership s p)"
      using ih m1(1) clear_bit_shape [OF cb] by simp_all
    have ihb: "\<forall>j\<ge>0. bit_at (membership s' p) j = (bit_at bm1 j \<and> \<not> (idx + 1 \<le> j \<and> j \<le> high))"
      using ih m1(1) by simp
    have d: "bit_at (membership s' p) j = (bit_at (membership s p) j \<and> \<not> (idx \<le> j \<and> j \<le> high))"
      if "0 \<le> j" for j
    proof -
      have "bit_at (membership s' p) j = (bit_at bm1 j \<and> \<not> (idx + 1 \<le> j \<and> j \<le> high))"
        using ihb that by simp
      also have "bit_at bm1 j = (j \<noteq> idx \<and> bit_at (membership s p) j)"
        using bit_at_clear_bit [OF cb that] .
      finally show ?thesis using True by auto
    qed
    show ?thesis using a b c d by blast
  qed
qed

lemma retire_range_from_partition_effect:
  assumes "retire_range_from_partition dbg ac s p low high = Inr s'"
  shows "\<forall>q. q \<noteq> p \<longrightarrow> membership s' q = membership s q"
    and "num_bits (membership s' p) = num_bits (membership s p)"
    and "num_words (membership s' p) = num_words (membership s p)"
    and "\<forall>j\<ge>0. bit_at (membership s' p) j
                = (bit_at (membership s p) j \<and> \<not> (low \<le> j \<and> j \<le> high))"
    and "max_regions s' = max_regions s" and "region_size_bytes s' = region_size_bytes s"
    and "capacity s' = capacity s" and "used s' = used s"
    and "region_counts s' = (region_counts s)(p := region_counts s p - word_of_int (high + 1 - low))"
proof -
  obtain s1 where cr: "clear_range dbg s p low high = Inr s1"
    using assms unfolding retire_range_from_partition_def
    by (cases "clear_range dbg s p low high") (simp_all split: if_splits)
  define s2 where "s2 = s1\<lparr>region_counts := (region_counts s1)
                      (p := region_counts s1 p - word_of_int (high + 1 - low))\<rparr>"
  have sh: "shrink_interval_if_range_modifies_either_boundary dbg ac s2 p low high = Inr s'"
    using assms cr unfolding retire_range_from_partition_def s2_def
    by (simp add: Let_def split: if_splits)
  note ce = clear_range_effect [OF cr]
  have s1: "s1 = s\<lparr>membership := membership s1\<rparr>" using ce by blast
  have fr: "max_regions s1 = max_regions s" "region_size_bytes s1 = region_size_bytes s"
    "capacity s1 = capacity s" "used s1 = used s" "region_counts s1 = region_counts s"
    by (subst s1, simp)+
  note sc = shrink_interval_if_range_modifies_either_boundary_same_core [OF sh]
  have m: "membership s' = membership s1" using sc by (simp add: same_core_def s2_def)
  show "\<forall>q. q \<noteq> p \<longrightarrow> membership s' q = membership s q"
    "num_bits (membership s' p) = num_bits (membership s p)"
    "num_words (membership s' p) = num_words (membership s p)"
    "\<forall>j\<ge>0. bit_at (membership s' p) j
                = (bit_at (membership s p) j \<and> \<not> (low \<le> j \<and> j \<le> high))"
    using ce unfolding m by blast+
  show "max_regions s' = max_regions s" "region_size_bytes s' = region_size_bytes s"
    "capacity s' = capacity s" "used s' = used s"
    "region_counts s' = (region_counts s)(p := region_counts s p - word_of_int (high + 1 - low))"
    using sc fr by (simp_all add: same_core_def s2_def)
qed

lemma increase_used_effect:
  "increase_used dbg s p bytes = Inr s' \<Longrightarrow> s' = s\<lparr>used := (used s)(p := used s p + bytes)\<rparr>"
  by (auto simp: increase_used_def Let_def split: if_splits)

lemma retire_from_partition_effect:
  assumes "retire_from_partition dbg ac s p idx used_bytes = Inr s'"
  shows "clear_bit_bm dbg (membership s p) idx = Inr (membership s' p)"
    and "\<forall>q. q \<noteq> p \<longrightarrow> membership s' q = membership s q"
    and "max_regions s' = max_regions s" and "region_size_bytes s' = region_size_bytes s"
    and "capacity s' = capacity s"
    and "used s' = (if used_bytes < region_size_bytes s
                    then (used s)(p := used s p + (region_size_bytes s - used_bytes)) else used s)"
    and "region_counts s' = (region_counts s)(p := region_counts s p - 1)"
proof -
  note d = retire_from_partition_def [of dbg ac s p idx used_bytes]
  have na: "\<not> assert_fails dbg (idx < max_regions s)"
    "assert_that dbg (in_free_set dbg s p idx) = None"
    using assms unfolding d by (auto split: if_splits option.splits)
  define s1 where "s1 = (if used_bytes < region_size_bytes s
      then s\<lparr>used := (used s)(p := used s p + (region_size_bytes s - used_bytes))\<rparr> else s)"
  have iu: "(if used_bytes < region_size_bytes s
             then increase_used dbg s p (region_size_bytes s - used_bytes) else Inr s) = Inr s1"
  proof (cases "used_bytes < region_size_bytes s")
    case False then show ?thesis by (simp add: s1_def)
  next
    case True
    obtain t where t: "increase_used dbg s p (region_size_bytes s - used_bytes) = Inr t"
      using assms na True unfolding d
      by (cases "increase_used dbg s p (region_size_bytes s - used_bytes)") simp_all
    then show ?thesis using True increase_used_effect [OF t] by (simp add: s1_def)
  qed
  have m1: "membership s1 = membership s" by (simp add: s1_def)
  obtain bm where cb: "clear_bit_bm dbg (membership s1 p) idx = Inr bm"
    using assms na iu unfolding d by (cases "clear_bit_bm dbg (membership s1 p) idx") simp_all
  define s2 where "s2 = s1\<lparr>membership := (membership s1)(p := bm)\<rparr>"
  obtain s3 where sh: "shrink_interval_if_boundary_modified dbg ac s2 p idx = Inr s3"
    using assms na iu cb unfolding d s2_def
    by (cases "shrink_interval_if_boundary_modified dbg ac
                 (s1\<lparr>membership := (membership s1)(p := bm)\<rparr>) p idx") simp_all
  have s': "s' = s3\<lparr>region_counts := (region_counts s3)(p := region_counts s3 p - 1)\<rparr>"
    using assms na iu cb sh unfolding d s2_def by simp
  note sc = shrink_interval_if_boundary_modified_same_core [OF sh]
  have m: "membership s' = (membership s)(p := bm)"
    using sc s' m1 by (simp add: same_core_def s2_def)
  show "clear_bit_bm dbg (membership s p) idx = Inr (membership s' p)"
    using cb m1 m by simp
  show "\<forall>q. q \<noteq> p \<longrightarrow> membership s' q = membership s q" using m by simp
  show "max_regions s' = max_regions s" "region_size_bytes s' = region_size_bytes s"
    "capacity s' = capacity s"
    "used s' = (if used_bytes < region_size_bytes s
                    then (used s)(p := used s p + (region_size_bytes s - used_bytes)) else used s)"
    "region_counts s' = (region_counts s)(p := region_counts s p - 1)"
    using sc s' by (simp_all add: same_core_def s1_def s2_def)
qed

lemma make_free_effect:
  assumes "make_free dbg ac s idx p available = Inr s'"
  shows "set_bit_bm dbg (membership s p) idx = Inr (membership s' p)"
    and "\<forall>q. q \<noteq> p \<longrightarrow> membership s' q = membership s q"
    and "max_regions s' = max_regions s" and "region_size_bytes s' = region_size_bytes s"
    and "capacity s' = (capacity s)(p := capacity s p + region_size_bytes s)"
    and "used s' = (used s)(p := used s p + (region_size_bytes s - available))"
    and "region_counts s' = (region_counts s)(p := region_counts s p + 1)"
proof -
  note d = make_free_def [of dbg ac s idx p available]
  have na: "\<not> assert_fails dbg (idx < max_regions s)"
    "assert_that dbg (map_sum id (\<lambda>m. m = None) (membership_of s idx)) = None"
    "\<not> assert_fails dbg (available \<le> region_size_bytes s)"
    using assms unfolding d by (auto split: if_splits option.splits)
  obtain bm where sb: "set_bit_bm dbg (membership s p) idx = Inr bm"
    using assms na unfolding d by (cases "set_bit_bm dbg (membership s p) idx") simp_all
  define s1 where "s1 = s\<lparr>membership := (membership s)(p := bm),
                  capacity := (capacity s)(p := capacity s p + region_size_bytes s),
                  used := (used s)(p := used s p + (region_size_bytes s - available))\<rparr>"
  obtain s2 where ex: "expand_interval_if_boundary_modified dbg ac s1 p idx available = Inr s2"
    using assms na sb unfolding d s1_def
    by (cases "expand_interval_if_boundary_modified dbg ac
               (s\<lparr>membership := (membership s)(p := bm),
                  capacity := (capacity s)(p := capacity s p + region_size_bytes s),
                  used := (used s)(p := used s p + (region_size_bytes s - available))\<rparr>)
               p idx available") (simp_all add: Let_def)
  have s': "s' = s2\<lparr>region_counts := (region_counts s2)(p := region_counts s2 p + 1)\<rparr>"
    using assms na sb ex unfolding d s1_def by (simp add: Let_def)
  note sc = expand_interval_if_boundary_modified_same_core [OF ex]
  have m: "membership s' = (membership s)(p := bm)"
    using sc s' by (simp add: same_core_def s1_def)
  show "set_bit_bm dbg (membership s p) idx = Inr (membership s' p)" using sb m by simp
  show "\<forall>q. q \<noteq> p \<longrightarrow> membership s' q = membership s q" using m by simp
  show "max_regions s' = max_regions s" "region_size_bytes s' = region_size_bytes s"
    "capacity s' = (capacity s)(p := capacity s p + region_size_bytes s)"
    "used s' = (used s)(p := used s p + (region_size_bytes s - available))"
    "region_counts s' = (region_counts s)(p := region_counts s p + 1)"
    using sc s' by (simp_all add: same_core_def s1_def)
qed

lemma move_from_partition_to_partition_effect:
  assumes "move_from_partition_to_partition dbg ac s idx orig new available = Inr s'"
    and "orig \<noteq> new"
  shows "clear_bit_bm dbg (membership s orig) idx = Inr (membership s' orig)"
    and "set_bit_bm dbg (membership s new) idx = Inr (membership s' new)"
    and "max_regions s' = max_regions s" and "region_size_bytes s' = region_size_bytes s"
    and "capacity s' = (capacity s)(orig := capacity s orig - region_size_bytes s,
                                    new := capacity s new + region_size_bytes s)"
    and "used s' = (used s)(orig := used s orig - (region_size_bytes s - available),
                            new := used s new + (region_size_bytes s - available))"
    and "region_counts s' = (region_counts s)(orig := region_counts s orig - 1,
                                              new := region_counts s new + 1)"
proof -
  note d = move_from_partition_to_partition_def [of dbg ac s idx orig new available]
  have na: "\<not> assert_fails dbg (idx < max_regions s)"
    "\<not> assert_fails dbg (available \<le> region_size_bytes s)"
    "\<not> assert_fails dbg
                ((available \<le> region_size_bytes s \<and>
                    ((orig = Mutator \<and> new = Collector) \<or>
                     (orig = Collector \<and> new = Mutator))) \<or>
                 (available = region_size_bytes s \<and>
                    (orig = Mutator \<and> new = Collector)))"
    using assms(1) unfolding d by (simp_all split: if_splits)
  obtain bm1 where cb: "clear_bit_bm dbg (membership s orig) idx = Inr bm1"
    using assms(1) na unfolding d
    by (cases "clear_bit_bm dbg (membership s orig) idx") (simp_all add: Let_def)
  obtain bm2 where sb: "set_bit_bm dbg (membership s new) idx = Inr bm2"
    using assms na cb unfolding d
    by (cases "set_bit_bm dbg (membership s new) idx") (simp_all add: Let_def)
  define t4 where "t4 = s\<lparr>membership := (membership s)(orig := bm1, new := bm2),
                  capacity := (capacity s)(orig := capacity s orig - region_size_bytes s),
                  used := (used s)(orig := used s orig - (region_size_bytes s - available))\<rparr>"
  obtain s5 where sh: "shrink_interval_if_boundary_modified dbg ac t4 orig idx = Inr s5"
    using assms na cb sb unfolding d t4_def
    by (cases "shrink_interval_if_boundary_modified dbg ac
               (s\<lparr>membership := (membership s)(orig := bm1, new := bm2),
                  capacity := (capacity s)(orig := capacity s orig - region_size_bytes s),
                  used := (used s)(orig := used s orig - (region_size_bytes s - available))\<rparr>)
               orig idx") (simp_all add: Let_def)
  note sc1 = shrink_interval_if_boundary_modified_same_core [OF sh]
  have r5: "region_size_bytes s5 = region_size_bytes s" using sc1 by (simp add: same_core_def t4_def)
  define t7 where "t7 = s5\<lparr>capacity := (capacity s5)(new := capacity s5 new + region_size_bytes s),
                   used := (used s5)(new := used s5 new + (region_size_bytes s - available))\<rparr>"
  obtain s8 where ex: "expand_interval_if_boundary_modified dbg ac t7 new idx available = Inr s8"
    using assms na cb sb sh r5 unfolding d t4_def t7_def
    by (cases "expand_interval_if_boundary_modified dbg ac
               (s5\<lparr>capacity := (capacity s5)(new := capacity s5 new + region_size_bytes s),
                   used := (used s5)(new := used s5 new + (region_size_bytes s - available))\<rparr>)
               new idx available") (simp_all add: Let_def)
  note sc2 = expand_interval_if_boundary_modified_same_core [OF ex]
  have s': "s' = s8\<lparr>region_counts := (region_counts s8)(orig := region_counts s8 orig - 1,
                        new := region_counts s8 new + 1)\<rparr>"
    using assms na cb sb sh ex r5 unfolding d t4_def t7_def by (simp add: Let_def)
  have core5: "membership s5 = (membership s)(orig := bm1, new := bm2)"
    "capacity s5 = (capacity s)(orig := capacity s orig - region_size_bytes s)"
    "used s5 = (used s)(orig := used s orig - (region_size_bytes s - available))"
    "region_counts s5 = region_counts s" "max_regions s5 = max_regions s"
    using sc1 by (simp_all add: same_core_def t4_def)
  have core8: "membership s8 = membership s5" "max_regions s8 = max_regions s5"
    "region_size_bytes s8 = region_size_bytes s5" "region_counts s8 = region_counts s5"
    "capacity s8 = (capacity s5)(new := capacity s5 new + region_size_bytes s)"
    "used s8 = (used s5)(new := used s5 new + (region_size_bytes s - available))"
    using sc2 by (simp_all add: same_core_def t7_def)
  show "clear_bit_bm dbg (membership s orig) idx = Inr (membership s' orig)"
    using cb s' core5(1) core8(1) assms(2) by simp
  show "set_bit_bm dbg (membership s new) idx = Inr (membership s' new)"
    using sb s' core5(1) core8(1) by simp
  show "max_regions s' = max_regions s" "region_size_bytes s' = region_size_bytes s"
    using s' core5 core8 r5 by simp_all
  show "capacity s' = (capacity s)(orig := capacity s orig - region_size_bytes s,
                                    new := capacity s new + region_size_bytes s)"
    using s' core5(2) core8(5) assms(2) by simp
  show "used s' = (used s)(orig := used s orig - (region_size_bytes s - available),
                            new := used s new + (region_size_bytes s - available))"
    using s' core5(3) core8(6) assms(2) by simp
  show "region_counts s' = (region_counts s)(orig := region_counts s orig - 1,
                                              new := region_counts s new + 1)"
    using s' core5(4) core8(4) assms(2) by simp
qed

lemma assert_bounds_same_core:
  assumes "assert_bounds dbg ac s = Inr s'"
  shows "same_core s s'"
proof (cases dbg)
  case False
  then show ?thesis using assms by (simp add: assert_bounds_def)
next
  case True
  note d = assert_bounds_def [of dbg ac s]
  obtain ob where ob: "assert_bounds_scan ac s 0
               \<lparr>ob_leftmosts = (\<lambda>p. max_regions s), ob_rightmosts = (\<lambda>p. - 1),
                ob_empty_leftmosts = (\<lambda>p. max_regions s), ob_empty_rightmosts = (\<lambda>p. - 1)\<rparr> = Inr ob"
    using assms True unfolding d
    by (cases "assert_bounds_scan ac s 0
               \<lparr>ob_leftmosts = (\<lambda>p. max_regions s), ob_rightmosts = (\<lambda>p. - 1),
                ob_empty_leftmosts = (\<lambda>p. max_regions s), ob_empty_rightmosts = (\<lambda>p. - 1)\<rparr>") simp_all
  have a1: "assert_interval_bounds s ob Mutator = None"
    using assms True ob unfolding d by (cases "assert_interval_bounds s ob Mutator") simp_all
  obtain le s1 where le: "leftmost_empty True ac s Mutator = Inr (le, s1)"
    using assms True ob a1 unfolding d
    by (cases "leftmost_empty True ac s Mutator") auto
  obtain re s2 where re: "rightmost_empty True ac s1 Mutator = Inr (re, s2)"
    using assms True ob a1 le unfolding d
    by (cases "rightmost_empty True ac s1 Mutator") (auto split: if_splits)
  have "s' = s2"
    using assms True ob a1 le re unfolding d
    by (auto split: if_splits option.splits)
  then show ?thesis
    using leftmost_empty_same_core [OF le] rightmost_empty_same_core [OF re]
    by (simp add: same_core_def)
qed

lemma find_regions_loop_step:
  assumes "find_regions_loop dbg opts h idx l s = Inr (l', s')" and "idx < num_regions h"
  shows "\<exists>l1 s1. find_regions_loop dbg opts h (idx + 1) l1 s1 = Inr (l', s') \<and>
           (s1 = s \<or> raw_set_membership dbg s (int idx) Mutator = Inr s1)"
proof (cases "raw_set_membership dbg s (int idx) Mutator")
  case (Inl e)
  then show ?thesis
    using assms unfolding find_regions_loop.simps [of dbg opts h idx l s]
    by (simp add: Let_def split: if_splits) blast+
next
  case (Inr s1)
  then show ?thesis
    using assms unfolding find_regions_loop.simps [of dbg opts h idx l s]
    by (simp add: Let_def split: if_splits) blast+
qed

lemma find_regions_loop_effect:
  "find_regions_loop dbg opts h idx l s = Inr (l', s') \<Longrightarrow>
   s' = s\<lparr>membership := membership s'\<rparr> \<and>
   membership s' Collector = membership s Collector \<and>
   num_bits (membership s' Mutator) = num_bits (membership s Mutator) \<and>
   num_words (membership s' Mutator) = num_words (membership s Mutator)"
proof (induction "num_regions h - idx" arbitrary: idx l s)
  case 0
  then have "s' = s" using find_regions_loop.simps [of dbg opts h idx l s] by simp
  then show ?case by simp
next
  case (Suc n)
  then have lt: "idx < num_regions h" by simp
  from find_regions_loop_step [OF Suc(3) lt] obtain l1 s1 where
    rec: "find_regions_loop dbg opts h (idx + 1) l1 s1 = Inr (l', s')"
    and s1: "s1 = s \<or> raw_set_membership dbg s (int idx) Mutator = Inr s1" by blast
  have n: "n = num_regions h - (idx + 1)" using Suc(2) by simp
  note ih = Suc(1) [OF n rec]
  from s1 show ?case
  proof
    assume "s1 = s" then show ?thesis using ih by simp
  next
    assume rs: "raw_set_membership dbg s (int idx) Mutator = Inr s1"
    obtain bm where sb: "set_bit_bm dbg (membership s Mutator) (int idx) = Inr bm"
      and s1: "s1 = s\<lparr>membership := (membership s)(Mutator := bm)\<rparr>"
      using rs by (auto simp: raw_set_membership_def split: sum.splits)
    have "s' = s1\<lparr>membership := membership s'\<rparr>" using ih by blast
    then have a: "s' = s\<lparr>membership := membership s'\<rparr>" by (simp add: s1)
    have b: "membership s' Collector = membership s Collector" using ih by (simp add: s1)
    have c: "num_bits (membership s' Mutator) = num_bits (membership s Mutator)"
      "num_words (membership s' Mutator) = num_words (membership s Mutator)"
      using ih set_bit_shape [OF sb] by (simp_all add: s1)
    show ?thesis using a b c by blast
  qed
qed

subsection \<open>Legal sequences of operations\<close>

text \<open>
  The tables that the operations of \<^verbatim>\<open>ShenandoahRegionPartitions\<close> produce from the
  constructor, which ends with \<^verbatim>\<open>make_all_regions_unavailable\<close>. An operation is used as
  its assertions ask: \<^verbatim>\<open>make_free\<close> on a region that is in no partition, a move between
  two different partitions, and \<^verbatim>\<open>raw_set_membership\<close> within
  \<^verbatim>\<open>find_regions_with_alloc_capacity\<close>, its only caller, which ends with
  \<^verbatim>\<open>establish_intervals\<close>. The capacities that the scans read are arbitrary at every
  step. The second argument counts, for each partition, the regions retired from it since
  the table was last cleared or populated.
\<close>

inductive legal_table ::
  "bool \<Rightarrow> ShenandoahRegionPartitions \<Rightarrow> (ShenandoahFreeSetPartitionId \<Rightarrow> int) \<Rightarrow> bool"
  for dbg :: bool where
  legal_new: "legal_table dbg (new_partitions n rsb mem) (\<lambda>p. 0)"
| legal_clear: "legal_table dbg s r \<Longrightarrow> legal_table dbg (make_all_regions_unavailable s) (\<lambda>p. 0)"
| legal_populate:
    "legal_table dbg (partitions fs) r \<Longrightarrow>
     find_regions_with_alloc_capacity dbg opts fs = Inr (fs', cset) \<Longrightarrow>
     legal_table dbg (partitions fs') (\<lambda>p. 0)"
| legal_make_free:
    "legal_table dbg s r \<Longrightarrow> membership_of s idx = Inr None \<Longrightarrow>
     make_free dbg ac s idx p available = Inr s' \<Longrightarrow> legal_table dbg s' r"
| legal_move:
    "legal_table dbg s r \<Longrightarrow> orig \<noteq> new \<Longrightarrow>
     move_from_partition_to_partition dbg ac s idx orig new available = Inr s' \<Longrightarrow>
     legal_table dbg s' r"
| legal_retire:
    "legal_table dbg s r \<Longrightarrow> retire_from_partition dbg ac s p idx used_bytes = Inr s' \<Longrightarrow>
     legal_table dbg s' (r(p := r p + 1))"
| legal_retire_range:
    "legal_table dbg s r \<Longrightarrow> retire_range_from_partition dbg ac s p low high = Inr s' \<Longrightarrow>
     legal_table dbg s' (r(p := r p + (high + 1 - low)))"
| legal_increase_used:
    "legal_table dbg s r \<Longrightarrow> increase_used dbg s p bytes = Inr s' \<Longrightarrow> legal_table dbg s' r"
| legal_leftmost_empty:
    "legal_table dbg s r \<Longrightarrow> leftmost_empty dbg ac s p = Inr (i, s') \<Longrightarrow> legal_table dbg s' r"
| legal_rightmost_empty:
    "legal_table dbg s r \<Longrightarrow> rightmost_empty dbg ac s p = Inr (i, s') \<Longrightarrow> legal_table dbg s' r"
| legal_assert_bounds:
    "legal_table dbg s r \<Longrightarrow> assert_bounds dbg ac s = Inr s' \<Longrightarrow> legal_table dbg s' r"

text \<open>
  The capacity of a partition counts its regions and the regions retired from it.
\<close>

definition capacity_equation ::
  "ShenandoahRegionPartitions \<Rightarrow> (ShenandoahFreeSetPartitionId \<Rightarrow> int) \<Rightarrow> bool" where
  "capacity_equation s r =
     (\<forall>p. capacity s p = (region_counts s p + word_of_int (r p)) * region_size_bytes s)"

lemma capacity_equation_same_core:
  "same_core s s' \<Longrightarrow> capacity_equation s r \<Longrightarrow> capacity_equation s' r"
  by (simp add: capacity_equation_def same_core_def)

lemma capacity_equation_cleared:
  "capacity_equation (make_all_regions_unavailable s) (\<lambda>p. 0)"
  unfolding capacity_equation_def
proof
  fix p
  show "capacity (make_all_regions_unavailable s) p =
          (region_counts (make_all_regions_unavailable s) p + word_of_int 0)
            * region_size_bytes (make_all_regions_unavailable s)"
    by (cases p) (simp_all add: make_all_regions_unavailable_def reset_partition_def Let_def)
qed

lemma find_regions_with_alloc_capacity_totals:
  assumes "find_regions_with_alloc_capacity dbg opts fs = Inr (fs', cset)"
  shows "\<exists>n. capacity (partitions fs') = (capacity (partitions fs'))
                  (Mutator := n * region_size_bytes (partitions fs'), Collector := 0) \<and>
              region_counts (partitions fs') = (region_counts (partitions fs'))
                  (Mutator := n, Collector := 0)"
proof -
  define s0 where "s0 = make_all_regions_unavailable (partitions fs)"
  obtain l0 l s1 where lp: "find_regions_loop dbg opts (heap fs) 0 l0 s0 = Inr (l, s1)"
    and fs': "partitions fs' = establish_intervals s1 (mutator_leftmost l) (mutator_rightmost l)
                          (mutator_leftmost_empty l) (mutator_rightmost_empty l)
                          (mutator_regions l) (mutator_used l)"
    using assms
    by (auto simp: find_regions_with_alloc_capacity_def clear_internal_def Let_def s0_def
        split: sum.splits)
  show ?thesis
    unfolding fs' by (intro exI [of _ "mutator_regions l"]) (simp add: establish_intervals_def)
qed

lemma capacity_equation_populated:
  assumes "find_regions_with_alloc_capacity dbg opts fs = Inr (fs', cset)"
  shows "capacity_equation (partitions fs') (\<lambda>p. 0)"
proof -
  from find_regions_with_alloc_capacity_totals [OF assms] obtain n where
    c: "capacity (partitions fs') = (capacity (partitions fs'))
                  (Mutator := n * region_size_bytes (partitions fs'), Collector := 0)"
    and k: "region_counts (partitions fs') = (region_counts (partitions fs'))
                  (Mutator := n, Collector := 0)" by blast
  have "capacity (partitions fs') p = region_counts (partitions fs') p * region_size_bytes (partitions fs')" for p
    by (subst c, subst k) (cases p; simp)
  then show ?thesis by (simp add: capacity_equation_def)
qed

lemma legal_table_capacity_equation:
  "legal_table dbg s r \<Longrightarrow> capacity_equation s r"
proof (induction rule: legal_table.induct)
  case (legal_new n rsb mem)
  then show ?case unfolding new_partitions_def by (rule capacity_equation_cleared)
next
  case (legal_clear s r)
  then show ?case by (simp add: capacity_equation_cleared)
next
  case (legal_populate fs r opts fs' cset)
  then show ?case by (simp add: capacity_equation_populated)
next
  case (legal_make_free s r idx ac p available s')
  note e = make_free_effect [OF legal_make_free(3)]
  show ?case using legal_make_free(4) e(4,5,7)
    by (simp add: capacity_equation_def algebra_simps)
next
  case (legal_move s r orig new ac idx available s')
  note e = move_from_partition_to_partition_effect [OF legal_move(3,2)]
  show ?case using legal_move(2,4) e(4,5,7)
    by (simp add: capacity_equation_def algebra_simps)
next
  case (legal_retire s r ac p idx used_bytes s')
  note e = retire_from_partition_effect [OF legal_retire(2)]
  show ?case using legal_retire(3) e(4,5,7)
    by (simp add: capacity_equation_def algebra_simps)
next
  case (legal_retire_range s r ac p low high s')
  note e = retire_range_from_partition_effect [OF legal_retire_range(2)]
  show ?case using legal_retire_range(3) e(6,7,9)
    by (simp add: capacity_equation_def algebra_simps)
next
  case (legal_increase_used s r p bytes s')
  then show ?case using increase_used_effect [OF legal_increase_used(2)]
    by (simp add: capacity_equation_def)
next
  case (legal_leftmost_empty s r ac p i s')
  then show ?case using leftmost_empty_same_core capacity_equation_same_core by blast
next
  case (legal_rightmost_empty s r ac p i s')
  then show ?case using rightmost_empty_same_core capacity_equation_same_core by blast
next
  case (legal_assert_bounds s r ac s')
  then show ?case using assert_bounds_same_core capacity_equation_same_core by blast
qed

text \<open>
  \<open>table_shape\<close>: both bit maps have \<open>max_regions\<close> bits and the words for them.
  \<open>disjoint_partitions\<close>: no region index has its bit set in both.
\<close>

definition table_shape :: "ShenandoahRegionPartitions \<Rightarrow> bool" where
  "table_shape s =
     (0 \<le> max_regions s \<and>
      (\<forall>p. num_bits (membership s p) = max_regions s \<and>
           nat (max_regions s) \<le> 64 * num_words (membership s p)))"

definition disjoint_partitions :: "ShenandoahRegionPartitions \<Rightarrow> bool" where
  "disjoint_partitions s =
     (\<forall>j. 0 \<le> j \<and> j < max_regions s \<longrightarrow>
          \<not> (bit_at (membership s Mutator) j \<and> bit_at (membership s Collector) j))"

lemma table_shape_same_core: "same_core s s' \<Longrightarrow> table_shape s \<Longrightarrow> table_shape s'"
  by (simp add: table_shape_def same_core_def)

lemma disjoint_partitions_same_core:
  "same_core s s' \<Longrightarrow> disjoint_partitions s \<Longrightarrow> disjoint_partitions s'"
  by (simp add: disjoint_partitions_def same_core_def)

lemma membership_make_all_regions_unavailable:
  "membership (make_all_regions_unavailable s) p = clear_all (membership s p)"
  by (cases p) (simp_all add: make_all_regions_unavailable_def reset_partition_def Let_def)

lemma max_regions_make_all_regions_unavailable [simp]:
  "max_regions (make_all_regions_unavailable s) = max_regions s"
  by (simp add: make_all_regions_unavailable_def reset_partition_def Let_def)

lemma table_shape_cleared:
  assumes "table_shape s"
  shows "table_shape (make_all_regions_unavailable s)"
    and "0 \<le> j \<Longrightarrow> j < max_regions s \<Longrightarrow> \<not> bit_at (membership (make_all_regions_unavailable s) p) j"
proof -
  show "table_shape (make_all_regions_unavailable s)"
    using assms
    by (simp add: table_shape_def membership_make_all_regions_unavailable
        num_bits_clear_all num_words_clear_all)
  assume j: "0 \<le> j" "j < max_regions s"
  have "nat j < 64 * num_words (membership s p)"
    using assms j by (auto simp: table_shape_def dest: spec [of _ p])
  then show "\<not> bit_at (membership (make_all_regions_unavailable s) p) j"
    using bit_at_clear_all [OF j(1)] by (simp add: membership_make_all_regions_unavailable)
qed

lemma disjoint_cleared:
  "table_shape s \<Longrightarrow> disjoint_partitions (make_all_regions_unavailable s)"
  using table_shape_cleared(2) by (simp add: disjoint_partitions_def)

lemma table_shape_new:
  "table_shape \<lparr>max_regions = int n, region_size_bytes = rsb,
        membership = (\<lambda>p. new_bitmap n (mem p)),
        leftmosts = (\<lambda>p. 0), rightmosts = (\<lambda>p. 0),
        leftmosts_empty = (\<lambda>p. 0), rightmosts_empty = (\<lambda>p. 0),
        capacity = (\<lambda>p. 0), used = (\<lambda>p. 0), region_counts = (\<lambda>p. 0)\<rparr>"
proof -
  have "n \<le> 64 * ((n + 63) div 64)" by presburger
  then show ?thesis
    by (simp add: table_shape_def new_bitmap_def num_bits_clear_all num_words_clear_all
        num_words_def clear_all_def)
qed

lemma membership_of_not_free:
  assumes "membership_of s idx = Inr None" and "table_shape s"
  shows "0 \<le> idx" "idx < max_regions s"
    "\<not> bit_at (membership s Mutator) idx" "\<not> bit_at (membership s Collector) idx"
proof -
  have lt: "idx < max_regions s" using assms(1) by (auto simp: membership_of_def split: if_splits)
  obtain a b where a: "is_set True (membership s Mutator) idx = Inr a"
    and b: "is_set True (membership s Collector) idx = Inr b" and ab: "\<not> a" "\<not> b"
    using assms(1) lt by (auto simp: membership_of_def split: if_splits sum.splits)
  have r: "in_range (membership s Mutator) idx" "in_range (membership s Collector) idx"
    using a b by (auto simp: is_set_def split: if_splits)
  show "0 \<le> idx" using r by (simp add: in_range_def)
  show "idx < max_regions s" by (rule lt)
  show "\<not> bit_at (membership s Mutator) idx" "\<not> bit_at (membership s Collector) idx"
    using a b ab is_set_bit_at [OF r(1)] is_set_bit_at [OF r(2)] by simp_all
qed

lemma legal_table_disjoint:
  "legal_table dbg s r \<Longrightarrow> table_shape s \<and> disjoint_partitions s"
proof (induction rule: legal_table.induct)
  case (legal_new n rsb mem)
  show ?case unfolding new_partitions_def
    using table_shape_cleared(1) [OF table_shape_new] disjoint_cleared [OF table_shape_new]
    by blast
next
  case (legal_clear s r)
  then show ?case using table_shape_cleared(1) disjoint_cleared by blast
next
  case (legal_populate fs r opts fs' cset)
  define s0 where "s0 = make_all_regions_unavailable (partitions fs)"
  obtain l0 l s1 where lp: "find_regions_loop dbg opts (heap fs) 0 l0 s0 = Inr (l, s1)"
    and fs': "partitions fs' = establish_intervals s1 (mutator_leftmost l) (mutator_rightmost l)
                          (mutator_leftmost_empty l) (mutator_rightmost_empty l)
                          (mutator_regions l) (mutator_used l)"
    using legal_populate(2)
    by (auto simp: find_regions_with_alloc_capacity_def clear_internal_def Let_def s0_def
        split: sum.splits)
  have sh0: "table_shape s0" using legal_populate(3) table_shape_cleared(1) by (simp add: s0_def)
  note e = find_regions_loop_effect [OF lp]
  have s1: "s1 = s0\<lparr>membership := membership s1\<rparr>" using e by blast
  have mx: "max_regions s1 = max_regions s0" by (subst s1) simp
  have shp: "num_bits (membership s1 p) = num_bits (membership s0 p)"
     "num_words (membership s1 p) = num_words (membership s0 p)" for p
    using e by (cases p; simp)+
  have sh1: "table_shape s1" using sh0 mx shp by (simp add: table_shape_def)
  have "\<not> bit_at (membership s1 Collector) j" if "0 \<le> j" "j < max_regions s1" for j
    using e table_shape_cleared(2) [of "partitions fs" j Collector] legal_populate(3) that mx
    by (simp add: s0_def)
  then have dj: "disjoint_partitions s1" by (simp add: disjoint_partitions_def)
  have "membership (partitions fs') = membership s1" "max_regions (partitions fs') = max_regions s1"
    unfolding fs' by (simp_all add: establish_intervals_def)
  then show ?case using sh1 dj by (simp add: table_shape_def disjoint_partitions_def)
next
  case (legal_make_free s r idx ac p available s')
  note e = make_free_effect [OF legal_make_free(3)]
  note nf = membership_of_not_free [OF legal_make_free(2)] 
  have sh: "table_shape s" and dj: "disjoint_partitions s" using legal_make_free(4) by simp_all
  have shp: "num_bits (membership s' q) = num_bits (membership s q)"
     "num_words (membership s' q) = num_words (membership s q)" for q
    using e(2) set_bit_shape [OF e(1)] by (cases "q = p"; simp)+
  have sh': "table_shape s'" using sh shp e(3) by (simp add: table_shape_def)
  have bits: "bit_at (membership s' q) j = ((q = p \<and> j = idx) \<or> bit_at (membership s q) j)"
    if "0 \<le> j" for q j
    using e(2) bit_at_set_bit [OF e(1) that] by (cases "q = p") auto
  have "\<not> (bit_at (membership s' Mutator) j \<and> bit_at (membership s' Collector) j)"
    if "0 \<le> j" "j < max_regions s" for j
    using dj nf [OF sh] that bits [OF that(1)] by (auto simp: disjoint_partitions_def)
  then show ?case using sh' e(3) by (simp add: disjoint_partitions_def)
next
  case (legal_move s r orig new ac idx available s')
  note e = move_from_partition_to_partition_effect [OF legal_move(3,2)]
  have sh: "table_shape s" and dj: "disjoint_partitions s" using legal_move(4) by simp_all
  have pq: "q = orig \<or> q = new" for q using legal_move(2) by (cases q; cases orig; cases new) auto
  have shp: "num_bits (membership s' q) = num_bits (membership s q)"
     "num_words (membership s' q) = num_words (membership s q)" for q
    using pq [of q] set_bit_shape [OF e(2)] clear_bit_shape [OF e(1)] by auto
  have sh': "table_shape s'" using sh shp e(3) by (simp add: table_shape_def)
  have bo: "bit_at (membership s' orig) j = (j \<noteq> idx \<and> bit_at (membership s orig) j)"
    and bn: "bit_at (membership s' new) j = (j = idx \<or> bit_at (membership s new) j)"
    if "0 \<le> j" for j
    using bit_at_clear_bit [OF e(1) that] bit_at_set_bit [OF e(2) that] by simp_all
  have both: "(bit_at (membership s' Mutator) j \<and> bit_at (membership s' Collector) j)
      = (bit_at (membership s' orig) j \<and> bit_at (membership s' new) j)" for j
    using legal_move(2) by (cases orig; cases new) auto
  have both0: "(bit_at (membership s Mutator) j \<and> bit_at (membership s Collector) j)
      = (bit_at (membership s orig) j \<and> bit_at (membership s new) j)" for j
    using legal_move(2) by (cases orig; cases new) auto
  have "\<not> (bit_at (membership s' Mutator) j \<and> bit_at (membership s' Collector) j)"
    if "0 \<le> j" "j < max_regions s" for j
    unfolding both using dj that bo [OF that(1)] bn [OF that(1)] both0 [of j]
    by (auto simp: disjoint_partitions_def)
  then show ?case using sh' e(3) by (simp add: disjoint_partitions_def)
next
  case (legal_retire s r ac p idx used_bytes s')
  note e = retire_from_partition_effect [OF legal_retire(2)]
  have sh: "table_shape s" and dj: "disjoint_partitions s" using legal_retire(3) by simp_all
  have shp: "num_bits (membership s' q) = num_bits (membership s q)"
     "num_words (membership s' q) = num_words (membership s q)" for q
    using e(2) clear_bit_shape [OF e(1)] by (cases "q = p"; simp)+
  have sh': "table_shape s'" using sh shp e(3) by (simp add: table_shape_def)
  have bits: "bit_at (membership s' q) j \<Longrightarrow> bit_at (membership s q) j" if "0 \<le> j" for q j
    using e(2) bit_at_clear_bit [OF e(1) that] by (cases "q = p") auto
  have "\<not> (bit_at (membership s' Mutator) j \<and> bit_at (membership s' Collector) j)"
    if "0 \<le> j" "j < max_regions s" for j
    using dj that bits [OF that(1)] by (auto simp: disjoint_partitions_def)
  then show ?case using sh' e(3) by (simp add: disjoint_partitions_def)
next
  case (legal_retire_range s r ac p low high s')
  note e = retire_range_from_partition_effect [OF legal_retire_range(2)]
  have sh: "table_shape s" and dj: "disjoint_partitions s" using legal_retire_range(3) by simp_all
  have shp: "num_bits (membership s' q) = num_bits (membership s q)"
     "num_words (membership s' q) = num_words (membership s q)" for q
    using e(1,2,3) by (cases "q = p"; simp)+
  have sh': "table_shape s'" using sh shp e(5) by (simp add: table_shape_def)
  have bits: "bit_at (membership s' q) j \<Longrightarrow> bit_at (membership s q) j" if "0 \<le> j" for q j
    using e(1,4) that by (cases "q = p") auto
  have "\<not> (bit_at (membership s' Mutator) j \<and> bit_at (membership s' Collector) j)"
    if "0 \<le> j" "j < max_regions s" for j
    using dj that bits [OF that(1)] by (auto simp: disjoint_partitions_def)
  then show ?case using sh' e(5) by (simp add: disjoint_partitions_def)
next
  case (legal_increase_used s r p bytes s')
  show ?case using legal_increase_used(3) increase_used_effect [OF legal_increase_used(2)]
    by (simp add: table_shape_def disjoint_partitions_def)
next
  case (legal_leftmost_empty s r ac p i s')
  then show ?case
    using leftmost_empty_same_core table_shape_same_core disjoint_partitions_same_core by blast
next
  case (legal_rightmost_empty s r ac p i s')
  then show ?case
    using rightmost_empty_same_core table_shape_same_core disjoint_partitions_same_core by blast
next
  case (legal_assert_bounds s r ac s')
  then show ?case
    using assert_bounds_same_core table_shape_same_core disjoint_partitions_same_core by blast
qed

subsection \<open>The gaps beside the empty regions\<close>

lemma leftmost_empty_gap:
  assumes "leftmost_empty dbg ac s p = Inr (le, s1)"
  shows "leftmost s p \<le> le" and "leftmost s1 p = leftmost s p" and "rightmost s1 p = rightmost s p"
    and "max_regions s1 = max_regions s"
    and "\<forall>j. leftmosts_empty s p \<le> j \<and> j < le \<longrightarrow> \<not> empty_member ac s p j"
proof -
  have m: "leftmost s p \<le> max_regions s" by (simp add: leftmost_def Let_def)
  note sp = leftmost_empty_spec [OF assms]
  show "leftmost s p \<le> le"
    using sp m by (auto simp: leftmost_empty_post_def empty_member_def in_interval_def)
  show "leftmost s1 p = leftmost s p" "rightmost s1 p = rightmost s p" "max_regions s1 = max_regions s"
    using sp by (auto simp: leftmost_empty_post_def leftmost_def rightmost_def Let_def)
  show "\<forall>j. leftmosts_empty s p \<le> j \<and> j < le \<longrightarrow> \<not> empty_member ac s p j"
    using sp by (auto simp: leftmost_empty_post_def)
qed

lemma rightmost_empty_gap:
  assumes "rightmost_empty dbg ac s p = Inr (re, s1)"
  shows "re = - 1 \<or> re \<le> rightmost s p" and "leftmost s1 p = leftmost s p"
    and "rightmost s1 p = rightmost s p" and "max_regions s1 = max_regions s"
    and "\<forall>j. 0 \<le> j \<and> re < j \<and> j \<le> rightmosts_empty s p \<longrightarrow> \<not> empty_member ac s p j"
proof -
  note sp = rightmost_empty_spec [OF assms]
  show "re = - 1 \<or> re \<le> rightmost s p"
    using sp by (auto simp: rightmost_empty_post_def empty_member_def in_interval_def)
  show "leftmost s1 p = leftmost s p" "rightmost s1 p = rightmost s p" "max_regions s1 = max_regions s"
    using sp by (auto simp: rightmost_empty_post_def leftmost_def rightmost_def Let_def)
  show "\<forall>j. 0 \<le> j \<and> re < j \<and> j \<le> rightmosts_empty s p \<longrightarrow> \<not> empty_member ac s p j"
    using sp by (auto simp: rightmost_empty_post_def)
qed

subsection \<open>The direction of the mutator scan\<close>

text \<open>
  \<open>keeps_bias fs x\<close>: if the step \<open>x\<close> returns a free set, it has the direction and the
  counter of \<open>fs\<close>.
\<close>

definition keeps_bias :: "ShenandoahFreeSet \<Rightarrow> vm_error + alloc_result \<Rightarrow> bool" where
  "keeps_bias fs x =
     (case x of
        Inl e \<Rightarrow> True
      | Inr (result, n, q, fs') \<Rightarrow>
          right_to_left_bias fs' = right_to_left_bias fs \<and>
          alloc_bias_weight fs' = alloc_bias_weight fs)"

lemma keeps_bias_Inl: "keeps_bias fs (Inl e)"
  by (simp add: keeps_bias_def)

lemma keeps_bias_same: "keeps_bias fs (Inr (a, b, c, fs))"
  by (simp add: keeps_bias_def)

lemma keeps_bias_update: "keeps_bias fs (Inr (a, b, c, fs\<lparr>heap := h, partitions := p\<rparr>))"
  by (simp add: keeps_bias_def)

lemma keeps_bias_if: "keeps_bias fs a \<Longrightarrow> keeps_bias fs b \<Longrightarrow> keeps_bias fs (if c then a else b)"
  by simp

lemma keeps_bias_let: "keeps_bias fs (f x) \<Longrightarrow> keeps_bias fs (Let x f)"
  by simp

lemma keeps_bias_option:
  "keeps_bias fs a \<Longrightarrow> (\<And>v. keeps_bias fs (g v)) \<Longrightarrow> keeps_bias fs (case x of None \<Rightarrow> a | Some v \<Rightarrow> g v)"
  by (cases x) simp_all

lemma keeps_bias_sum:
  "(\<And>e. keeps_bias fs (f e)) \<Longrightarrow> (\<And>v. keeps_bias fs (g v)) \<Longrightarrow> keeps_bias fs (case x of Inl e \<Rightarrow> f e | Inr v \<Rightarrow> g v)"
  by (cases x) simp_all

lemma keeps_bias_prod:
  "(\<And>a b. keeps_bias fs (f a b)) \<Longrightarrow> keeps_bias fs (case p of (a, b) \<Rightarrow> f a b)"
  by (cases p) simp

lemmas keeps_bias_intros =
  keeps_bias_Inl keeps_bias_same keeps_bias_update keeps_bias_if keeps_bias_let
  keeps_bias_option keeps_bias_sum keeps_bias_prod

lemma try_allocate_in_keeps_bias: "keeps_bias fs (try_allocate_in dbg opts fs idx req in_new_region)"
  unfolding try_allocate_in_def by (intro keeps_bias_intros)

lemma mutator_try_region_keeps_bias:
  "keeps_bias fs (mutator_try_region dbg opts fs req in_new_region idx)"
  unfolding mutator_try_region_def by (intro keeps_bias_intros try_allocate_in_keeps_bias)

lemma mutator_try_region_bias:
  assumes "mutator_try_region dbg opts fs req in_new_region idx = Inr (result, n, q, fs')"
  shows "right_to_left_bias fs' = right_to_left_bias fs \<and>
         alloc_bias_weight fs' = alloc_bias_weight fs"
  using mutator_try_region_keeps_bias [of fs dbg opts req in_new_region idx] assms
  by (simp add: keeps_bias_def)

lemma mutator_scan_right_to_left_bias:
  assumes "mutator_scan_right_to_left dbg opts fs req in_new_region idx leftmost_idx = Some y"
  shows "\<forall>result n q fs'. y = Inr (result, n, q, fs') \<longrightarrow>
           right_to_left_bias fs' = right_to_left_bias fs \<and>
           alloc_bias_weight fs' = alloc_bias_weight fs"
proof (rule mutator_scan_right_to_left.raw_induct
         [where P = "\<lambda>dbg opts fs req in_new_region idx leftmost_idx y.
                       \<forall>result n q fs'. y = Inr (result, n, q, fs') \<longrightarrow>
                         right_to_left_bias fs' = right_to_left_bias fs \<and>
                         alloc_bias_weight fs' = alloc_bias_weight fs", OF _ assms])
  fix scan :: "bool \<Rightarrow> vm_options \<Rightarrow> ShenandoahFreeSet \<Rightarrow> ShenandoahAllocRequest \<Rightarrow> bool \<Rightarrow> int \<Rightarrow> int
                 \<Rightarrow> alloc_outcome"
    and dbg opts fs req in_new_region idx leftmost_idx y
  assume IH: "\<And>dbg opts fs req in_new_region idx leftmost_idx y.
                scan dbg opts fs req in_new_region idx leftmost_idx = Some y \<Longrightarrow>
                \<forall>result n q fs'. y = Inr (result, n, q, fs') \<longrightarrow>
                  right_to_left_bias fs' = right_to_left_bias fs \<and>
                  alloc_bias_weight fs' = alloc_bias_weight fs"
  assume body: "(if idx \<ge> leftmost_idx then
        (case mutator_try_region dbg opts fs req in_new_region idx of
           Inl e \<Rightarrow> Some (Inl e)
         | Inr (result, in_new_region', req', fs') \<Rightarrow>
             if result \<noteq> None then Some (Inr (result, in_new_region', req', fs'))
             else
               (case find_index_of_previous_available_region dbg (partitions fs') Mutator (idx - 1) of
                  Inl e \<Rightarrow> Some (Inl e)
                | Inr idx' \<Rightarrow> scan dbg opts fs' req' in_new_region' idx' leftmost_idx))
      else Some (Inr (None, in_new_region, req, fs))) = Some y"
  show "\<forall>result n q fs'. y = Inr (result, n, q, fs') \<longrightarrow>
          right_to_left_bias fs' = right_to_left_bias fs \<and>
          alloc_bias_weight fs' = alloc_bias_weight fs"
  proof (cases "leftmost_idx \<le> idx")
    case False
    then show ?thesis using body by auto
  next
    case True
    show ?thesis
    proof (cases "mutator_try_region dbg opts fs req in_new_region idx")
      case (Inl e)
      then show ?thesis using body True by auto
    next
      case (Inr t)
      obtain r1 n1 q1 fs1 where t: "t = (r1, n1, q1, fs1)" by (cases t) auto
      note b = mutator_try_region_bias [OF Inr [unfolded t]]
      show ?thesis
      proof (cases "r1 \<noteq> None")
        case True
        then show ?thesis using body \<open>leftmost_idx \<le> idx\<close> Inr t b by auto
      next
        case False
        show ?thesis
        proof (cases "find_index_of_previous_available_region dbg (partitions fs1) Mutator (idx - 1)")
          case (Inl e)
          then show ?thesis using body \<open>leftmost_idx \<le> idx\<close> Inr t False by auto
        next
          case (Inr j)
          have "scan dbg opts fs1 q1 n1 j leftmost_idx = Some y"
            using body \<open>leftmost_idx \<le> idx\<close> \<open>mutator_try_region dbg opts fs req in_new_region idx = Inr t\<close>
              t False Inr by auto
          from IH [OF this] show ?thesis using b by auto
        qed
      qed
    qed
  qed
qed

lemma mutator_scan_left_to_right_bias:
  assumes "mutator_scan_left_to_right dbg opts fs req in_new_region idx rightmost_idx = Some y"
  shows "\<forall>result n q fs'. y = Inr (result, n, q, fs') \<longrightarrow>
           right_to_left_bias fs' = right_to_left_bias fs \<and>
           alloc_bias_weight fs' = alloc_bias_weight fs"
proof (rule mutator_scan_left_to_right.raw_induct
         [where P = "\<lambda>dbg opts fs req in_new_region idx rightmost_idx y.
                       \<forall>result n q fs'. y = Inr (result, n, q, fs') \<longrightarrow>
                         right_to_left_bias fs' = right_to_left_bias fs \<and>
                         alloc_bias_weight fs' = alloc_bias_weight fs", OF _ assms])
  fix scan :: "bool \<Rightarrow> vm_options \<Rightarrow> ShenandoahFreeSet \<Rightarrow> ShenandoahAllocRequest \<Rightarrow> bool \<Rightarrow> int \<Rightarrow> int
                 \<Rightarrow> alloc_outcome"
    and dbg opts fs req in_new_region idx rightmost_idx y
  assume IH: "\<And>dbg opts fs req in_new_region idx rightmost_idx y.
                scan dbg opts fs req in_new_region idx rightmost_idx = Some y \<Longrightarrow>
                \<forall>result n q fs'. y = Inr (result, n, q, fs') \<longrightarrow>
                  right_to_left_bias fs' = right_to_left_bias fs \<and>
                  alloc_bias_weight fs' = alloc_bias_weight fs"
  assume body: "(if idx \<le> rightmost_idx then
        (case mutator_try_region dbg opts fs req in_new_region idx of
           Inl e \<Rightarrow> Some (Inl e)
         | Inr (result, in_new_region', req', fs') \<Rightarrow>
             if result \<noteq> None then Some (Inr (result, in_new_region', req', fs'))
             else
               (case find_index_of_next_available_region dbg (partitions fs') Mutator (idx + 1) of
                  Inl e \<Rightarrow> Some (Inl e)
                | Inr idx' \<Rightarrow> scan dbg opts fs' req' in_new_region' idx' rightmost_idx))
      else Some (Inr (None, in_new_region, req, fs))) = Some y"
  show "\<forall>result n q fs'. y = Inr (result, n, q, fs') \<longrightarrow>
          right_to_left_bias fs' = right_to_left_bias fs \<and>
          alloc_bias_weight fs' = alloc_bias_weight fs"
  proof (cases "idx \<le> rightmost_idx")
    case False
    then show ?thesis using body by auto
  next
    case True
    show ?thesis
    proof (cases "mutator_try_region dbg opts fs req in_new_region idx")
      case (Inl e)
      then show ?thesis using body True by auto
    next
      case (Inr t)
      obtain r1 n1 q1 fs1 where t: "t = (r1, n1, q1, fs1)" by (cases t) auto
      note b = mutator_try_region_bias [OF Inr [unfolded t]]
      show ?thesis
      proof (cases "r1 \<noteq> None")
        case True
        then show ?thesis using body \<open>idx \<le> rightmost_idx\<close> Inr t b by auto
      next
        case False
        show ?thesis
        proof (cases "find_index_of_next_available_region dbg (partitions fs1) Mutator (idx + 1)")
          case (Inl e)
          then show ?thesis using body \<open>idx \<le> rightmost_idx\<close> Inr t False by auto
        next
          case (Inr j)
          have "scan dbg opts fs1 q1 n1 j rightmost_idx = Some y"
            using body \<open>idx \<le> rightmost_idx\<close> \<open>mutator_try_region dbg opts fs req in_new_region idx = Inr t\<close>
              t False Inr by auto
          from IH [OF this] show ?thesis using b by auto
        qed
      qed
    qed
  qed
qed

lemma empty_member_same:
  assumes "same_core s s'" and "leftmost s' p = leftmost s p" and "rightmost s' p = rightmost s p"
  shows "empty_member ac s' p j = empty_member ac s p j"
  using assms by (simp add: empty_member_def in_interval_def same_core_def)

lemma leftmost_empty_sentinel:
  assumes "leftmost_empty dbg ac s p = Inr (le, s1)"
  shows "le = max_regions s \<or> empty_member ac s p le"
  using leftmost_empty_spec [OF assms] by (auto simp: leftmost_empty_post_def)

lemma rightmost_empty_sentinel:
  assumes "rightmost_empty dbg ac s p = Inr (re, s1)"
  shows "re = - 1 \<or> empty_member ac s p re"
  using rightmost_empty_spec [OF assms] by (auto simp: rightmost_empty_post_def)

lemma allocation_bias_step:
  assumes mut: "is_mutator_alloc req" and w: "alloc_bias_weight fs \<le> 0"
    and le: "leftmost_empty dbg (alloc_capacity_idx opts (heap fs)) (partitions fs) Mutator = Inr (le, p1)"
    and re: "rightmost_empty dbg (alloc_capacity_idx opts (heap fs)) p1 Mutator = Inr (re, p2)"
    and l: "l = leftmost (partitions fs) Mutator" and r: "r = rightmost (partitions fs) Mutator"
    and d: "d = (r - re > le - l)"
    and fs2: "fs2 = fs\<lparr>partitions := p2, right_to_left_bias := d, alloc_bias_weight := 256\<rparr>"
  shows "allocate_single dbg opts fs req in_new_region =
           (if r < l then Some (Inr (None, in_new_region, req, fs2))
            else case mutator_try_region dbg opts fs2 req in_new_region (if d then r else l) of
                   Inl e \<Rightarrow> Some (Inl e)
                 | Inr (result, n, q, fs3) \<Rightarrow>
                     if result \<noteq> None then Some (Inr (result, n, q, fs3))
                     else if d then
                       (case find_index_of_previous_available_region dbg (partitions fs3) Mutator
                               (r - 1) of
                          Inl e \<Rightarrow> Some (Inl e)
                        | Inr j \<Rightarrow> mutator_scan_right_to_left dbg opts fs3 q n j l)
                     else
                       (case find_index_of_next_available_region dbg (partitions fs3) Mutator
                               (l + 1) of
                          Inl e \<Rightarrow> Some (Inl e)
                        | Inr j \<Rightarrow> mutator_scan_left_to_right dbg opts fs3 q n j r))"
    and "allocate_single dbg opts fs req in_new_region = Some (Inr (result, n, q, fs')) \<Longrightarrow>
           right_to_left_bias fs' = d \<and> alloc_bias_weight fs' = 256"
proof -
  note lg = leftmost_empty_gap [OF le]
  note rg = rightmost_empty_gap [OF re]
  have l2: "leftmost p2 Mutator = l" and r2: "rightmost p2 Mutator = r"
    using lg(2,3) rg(2,3) l r by simp_all
  have dir: "(rightmost p2 Mutator - re > le - leftmost p1 Mutator) = d"
    using d l r lg(2) r2 by simp
  have rc: "reconsider_alloc_bias dbg opts (fs\<lparr>alloc_bias_weight := alloc_bias_weight fs - 1\<rparr>)
            = Inr fs2"
    using le re dir by (simp add: reconsider_alloc_bias_def Let_def fs2)
  have e2: "is_empty_partition p2 Mutator = (r < l)"
    using l2 r2 by (simp add: is_empty_partition_def)
  have p2: "partitions fs2 = p2" "right_to_left_bias fs2 = d" "alloc_bias_weight fs2 = 256"
    by (simp_all add: fs2)
  have single: "allocate_single dbg opts fs req in_new_region
        = allocate_single_mutator dbg opts fs req in_new_region"
    using mut by (auto simp: allocate_single_def is_mutator_alloc_def)
  have scans: "allocate_single dbg opts fs req in_new_region =
            (if r < l then Some (Inr (None, in_new_region, req, fs2))
             else if d then mutator_scan_right_to_left dbg opts fs2 req in_new_region r l
             else mutator_scan_left_to_right dbg opts fs2 req in_new_region l r)"
    unfolding single using w e2 l2 r2 p2
    by (simp add: allocate_single_mutator_def Let_def rc)
  show "allocate_single dbg opts fs req in_new_region =
           (if r < l then Some (Inr (None, in_new_region, req, fs2))
            else case mutator_try_region dbg opts fs2 req in_new_region (if d then r else l) of
                   Inl e \<Rightarrow> Some (Inl e)
                 | Inr (result, n, q, fs3) \<Rightarrow>
                     if result \<noteq> None then Some (Inr (result, n, q, fs3))
                     else if d then
                       (case find_index_of_previous_available_region dbg (partitions fs3) Mutator
                               (r - 1) of
                          Inl e \<Rightarrow> Some (Inl e)
                        | Inr j \<Rightarrow> mutator_scan_right_to_left dbg opts fs3 q n j l)
                     else
                       (case find_index_of_next_available_region dbg (partitions fs3) Mutator
                               (l + 1) of
                          Inl e \<Rightarrow> Some (Inl e)
                        | Inr j \<Rightarrow> mutator_scan_left_to_right dbg opts fs3 q n j r))"
  proof (cases "r < l")
    case True
    then show ?thesis unfolding scans by simp
  next
    case False
    then have lr: "l \<le> r" by simp
    show ?thesis
    proof (cases d)
      case True
      show ?thesis
        unfolding scans using False True lr
        by (simp add: mutator_scan_right_to_left.simps [of dbg opts fs2 req in_new_region r l]
                 split: sum.splits prod.splits)
    next
      case d_false: False
      show ?thesis
        unfolding scans using False d_false lr
        by (simp add: mutator_scan_left_to_right.simps [of dbg opts fs2 req in_new_region l r]
                 split: sum.splits prod.splits)
    qed
  qed
  assume ret: "allocate_single dbg opts fs req in_new_region = Some (Inr (result, n, q, fs'))"
  show "right_to_left_bias fs' = d \<and> alloc_bias_weight fs' = 256"
  proof (cases "r < l")
    case True
    then show ?thesis using ret p2 unfolding scans by auto
  next
    case False
    show ?thesis
    proof (cases d)
      case True
      then have "mutator_scan_right_to_left dbg opts fs2 req in_new_region r l
                 = Some (Inr (result, n, q, fs'))"
        using ret False unfolding scans by simp
      from mutator_scan_right_to_left_bias [OF this] show ?thesis using p2 by simp
    next
      case d_false: False
      then have "mutator_scan_left_to_right dbg opts fs2 req in_new_region l r
                 = Some (Inr (result, n, q, fs'))"
        using ret False unfolding scans by simp
      from mutator_scan_left_to_right_bias [OF this] show ?thesis using p2 by simp
    qed
  qed
qed

subsection \<open>A failed request in a nearly full region\<close>














section \<open>The claims on accounting, membership and the empty bounds\<close>

text \<open>
  Regions with 512 KiB and with 2056 bytes left, a request of kind \<^verbatim>\<open>_alloc_shared\<close>, and
  the public operations in sequence: \<^verbatim>\<open>rebuild\<close> on a new free set, then \<^verbatim>\<open>allocate\<close>,
  then \<^verbatim>\<open>move_regions_from_collector_to_mutator\<close>.
\<close>

definition half_region :: ShenandoahHeapRegion where
  "half_region = \<lparr>state = RegularState, region_top = 524288, update_watermark = 0\<rparr>"

definition shared_request :: "size_t \<Rightarrow> ShenandoahAllocRequest" where
  "shared_request n =
     \<lparr>requested_size = n, min_size = n, alloc_kind = alloc_shared, actual_size = 0\<rparr>"

definition after_rebuild :: "bool \<Rightarrow> ShenandoahHeapRegion list \<Rightarrow> vm_error + ShenandoahFreeSet" where
  "after_rebuild dbg rs = rebuild dbg scenario_options (free_set_of rs)"

definition then_allocate ::
  "bool \<Rightarrow> ShenandoahAllocRequest \<Rightarrow> vm_error + ShenandoahFreeSet
     \<Rightarrow> (vm_error + HeapWordPtr option \<times> ShenandoahFreeSet) option" where
  "then_allocate dbg req before =
     (case before of
        Inl e \<Rightarrow> Some (Inl e)
      | Inr fs \<Rightarrow>
          map_option (map_sum id (\<lambda>(result, in_new_region, req', fs'). (result, fs')))
            (allocate dbg scenario_options fs req False))"

definition then_transfer ::
  "bool \<Rightarrow> size_t \<Rightarrow> (vm_error + HeapWordPtr option \<times> ShenandoahFreeSet) option
     \<Rightarrow> (vm_error + ShenandoahFreeSet) option" where
  "then_transfer dbg max_xfer_regions before =
     (case before of
        None \<Rightarrow> None
      | Some (Inl e) \<Rightarrow> Some (Inl e)
      | Some (Inr (result, fs)) \<Rightarrow>
          move_regions_from_collector_to_mutator dbg scenario_options fs max_xfer_regions)"

definition totals :: "ShenandoahFreeSet \<Rightarrow> size_t \<times> size_t \<times> size_t" where
  "totals fs =
     (let s = partitions fs
      in (capacity s Mutator, region_counts s Mutator, region_size_bytes s))"

definition nearly_full_region :: ShenandoahHeapRegion where
  "nearly_full_region = \<lparr>state = RegularState, region_top = 1046520, update_watermark = 0\<rparr>"

text \<open>
  A heap whose region 0 has 2056 bytes left: after \<^verbatim>\<open>rebuild\<close>, a request for two words is
  served from region 0 and leaves it 2040 bytes, less than a PLAB, so the region is retired.
  The result is the address and the capacity, count and region size of the Mutator
  partition.
\<close>

definition retiring_allocation :: "bool \<Rightarrow> (vm_error + HeapWordPtr option \<times> size_t \<times> size_t \<times> size_t) option" where
  "retiring_allocation dbg =
     map_option (map_sum id (\<lambda>(result, fs). (result, totals fs)))
       (then_allocate dbg (shared_request 2)
          (after_rebuild dbg (nearly_full_region # replicate 15 empty_region)))"

text \<open>
  Eleven half-full regions below five empty ones. \<^verbatim>\<open>rebuild\<close> leaves regions 0 to 11 to
  the mutator, region 11 its only empty one; a request for 100000 words fits in region 11
  only; then one region, region 12, is returned from the Collector partition. The result
  is what \<^verbatim>\<open>leftmost_empty(Mutator)\<close> answers next, whether region 12 is in the Mutator
  partition, its \<^verbatim>\<open>alloc_capacity\<close>, and what \<^verbatim>\<open>assert_bounds\<close> of a debug build says of
  the table.
\<close>

definition stale_bound_query ::
  "bool \<Rightarrow> (vm_error + int \<times> (vm_error + bool) \<times> (vm_error + size_t) \<times> (vm_error + unit)) option" where
  "stale_bound_query dbg =
     (case then_transfer dbg 1
             (then_allocate dbg (shared_request 100000)
                (after_rebuild dbg (replicate 11 half_region @ replicate 5 empty_region))) of
        None \<Rightarrow> None
      | Some (Inl e) \<Rightarrow> Some (Inl e)
      | Some (Inr fs) \<Rightarrow>
          Some (map_sum id
                  (\<lambda>(i, s'). (i, in_free_set dbg (partitions fs) Mutator 12,
                              alloc_capacity_idx scenario_options (heap fs) 12,
                              map_sum id (\<lambda>s. ())
                                (assert_bounds True (alloc_capacity_idx scenario_options (heap fs))
                                   (partitions fs))))
                  (leftmost_empty dbg (alloc_capacity_idx scenario_options (heap fs))
                     (partitions fs) Mutator)))"

lemma ra_debug: "retiring_allocation True = Some (Inr (Some (0, 1046520), 12582912, 11, 1048576))"
  by code_simp

lemma sbq_debug:
  "stale_bound_query True = Some (Inr (16, Inr True, Inr 1048576, Inl AssertionFailure))"
  by code_simp

lemma sbq_product:
  "stale_bound_query False = Some (Inr (16, Inr True, Inr 1048576, Inl AssertionFailure))"
  by code_simp

text \<open>
  A table over four regions of 1 MiB, where region 1 has 16 bytes left: region 1 is put in
  the Mutator partition, and then either retired or moved to the Collector partition.
\<close>

definition tail_region :: ShenandoahHeapRegion where
  "tail_region = \<lparr>state = RegularState, region_top = 1048560, update_watermark = 0\<rparr>"

definition tail_heap :: ShenandoahHeap where
  "tail_heap = heap_of [full_region, tail_region, full_region, full_region]"

definition tail_capacity :: capacity_query where
  "tail_capacity = alloc_capacity_idx scenario_options tail_heap"

definition fresh_table :: ShenandoahRegionPartitions where
  "fresh_table = new_partitions 4 1048576 (\<lambda>p i. 0)"

definition one_member_table :: ShenandoahRegionPartitions where
  "one_member_table = projr (make_free True tail_capacity fresh_table 1 Mutator 16)"

definition retired_table :: ShenandoahRegionPartitions where
  "retired_table = projr (retire_from_partition True tail_capacity one_member_table Mutator 1 1048560)"

definition moved_table :: ShenandoahRegionPartitions where
  "moved_table =
     projr (move_from_partition_to_partition True tail_capacity one_member_table 1 Mutator
              Collector 16)"

definition one_retired :: "ShenandoahFreeSetPartitionId \<Rightarrow> int" where
  "one_retired = (\<lambda>p. 0)(Mutator := 1)"

definition none_retired :: "ShenandoahFreeSetPartitionId \<Rightarrow> int" where
  "none_retired = (\<lambda>p. 0)"

lemma returned: "\<not> isl x \<Longrightarrow> x = Inr (projr x)"
  by simp

lemma fresh_table_not_free: "membership_of fresh_table 1 = Inr None"
  by code_simp

lemma make_free_returns: "\<not> isl (make_free True tail_capacity fresh_table 1 Mutator 16)"
  by code_simp

lemma retire_returns:
  "\<not> isl (retire_from_partition True tail_capacity one_member_table Mutator 1 1048560)"
  by code_simp

lemma move_returns:
  "\<not> isl (move_from_partition_to_partition True tail_capacity one_member_table 1 Mutator
             Collector 16)"
  by code_simp

lemma one_member_table_legal: "legal_table True one_member_table none_retired"
  unfolding none_retired_def
proof (rule legal_make_free)
  show "legal_table True fresh_table (\<lambda>p. 0)" unfolding fresh_table_def by (rule legal_new)
  show "membership_of fresh_table 1 = Inr None" by (rule fresh_table_not_free)
  show "make_free True tail_capacity fresh_table 1 Mutator 16 = Inr one_member_table"
    unfolding one_member_table_def using make_free_returns by (rule returned)
qed

lemma retired_table_legal: "legal_table True retired_table one_retired"
proof -
  have "retire_from_partition True tail_capacity one_member_table Mutator 1 1048560
          = Inr retired_table"
    unfolding retired_table_def using retire_returns by (rule returned)
  from legal_retire [OF one_member_table_legal this]
  show ?thesis by (simp add: one_retired_def none_retired_def)
qed

lemma moved_table_legal: "legal_table True moved_table none_retired"
proof -
  have "move_from_partition_to_partition True tail_capacity one_member_table 1 Mutator
          Collector 16 = Inr moved_table"
    unfolding moved_table_def using move_returns by (rule returned)
  from legal_move [OF one_member_table_legal _ this] show ?thesis by simp
qed

subsection \<open>Capacity and count\<close>

text \<open>
  Claim C1, as amended. In every table that legal operations produce, the capacity of a
  partition is the region size times the number of its regions plus the number of regions
  retired from it since the table was last cleared or populated: \<^verbatim>\<open>make_free\<close> and
  \<^verbatim>\<open>move_from_partition_to_partition\<close> change capacity and count together, while
  \<^verbatim>\<open>retire_from_partition\<close> and \<^verbatim>\<open>retire_range_from_partition\<close> lower the count and
  leave the capacity. The arithmetic is that of \<^verbatim>\<open>size_t\<close>.
\<close>

theorem capacity_counts_retired_regions:
  assumes "legal_table dbg s retired"
  shows "capacity s p = (region_counts s p + word_of_int (retired p)) * region_size_bytes s"
  using legal_table_capacity_equation [OF assms] by (simp add: capacity_equation_def)

lemma retired_table_totals:
  "(capacity retired_table Mutator, region_counts retired_table Mutator,
    region_size_bytes retired_table) = (1048576, 0, 1048576)"
  by code_simp

text \<open>
  The table where region 1 was put in the Mutator partition and retired: one region
  retired, capacity 1 MiB, count 0.
\<close>

theorem capacity_counts_retired_regions_witness:
  "legal_table True retired_table one_retired \<and>
   capacity retired_table Mutator
     = (region_counts retired_table Mutator + word_of_int (one_retired Mutator))
         * region_size_bytes retired_table \<and>
   capacity retired_table Mutator = 1048576 \<and> region_counts retired_table Mutator = 0"
  using capacity_counts_retired_regions [OF retired_table_legal, of Mutator]
    retired_table_legal retired_table_totals by (simp add: one_retired_def)

text \<open>
  Claim C1 as stated fails after a retirement: when \<^verbatim>\<open>allocate\<close> returns from the request
  that retires region 0, the Mutator partition has 11 regions of 1 MiB and a capacity of
  12 MiB.
\<close>

theorem capacity_exceeds_count_after_retirement:
  "retiring_allocation True = Some (Inr (Some (0, 1046520), 12582912, 11, 1048576)) \<and>
   (12582912 :: size_t) \<noteq> 11 * 1048576"
  using ra_debug by simp

subsection \<open>Disjoint partitions\<close>

text \<open>
  Claim C2. In every table that legal operations produce from the constructor, no region
  index is in both partitions, as \<^verbatim>\<open>in_free_set\<close> reports membership; the index is
  arbitrary, since \<^verbatim>\<open>in_free_set\<close> does not answer outside \<open>[0, max_regions)\<close>. The legal
  operations include \<^verbatim>\<open>raw_set_membership\<close> as \<^verbatim>\<open>find_regions_with_alloc_capacity\<close>
  uses it during a rebuild, and \<^verbatim>\<open>move_from_partition_to_partition\<close>.
\<close>

theorem partitions_disjoint:
  assumes "legal_table dbg s retired"
  shows "\<not> (in_free_set dbg s Mutator i = Inr True \<and> in_free_set dbg s Collector i = Inr True)"
proof
  assume both: "in_free_set dbg s Mutator i = Inr True \<and> in_free_set dbg s Collector i = Inr True"
  have inv: "table_shape s" "disjoint_partitions s"
    using legal_table_disjoint [OF assms] by simp_all
  have r: "in_range (membership s Mutator) i" "in_range (membership s Collector) i"
    using both by (auto simp: in_free_set_def is_set_def split: if_splits)
  then have "bit_at (membership s Mutator) i" "bit_at (membership s Collector) i"
    using both by (simp_all add: in_free_set_def is_set_bit_at)
  moreover have "0 \<le> i" "i < max_regions s"
    using r(1) inv(1) by (simp_all add: in_range_def table_shape_def)
  ultimately show False using inv(2) by (simp add: disjoint_partitions_def)
qed

lemma moved_table_members:
  "(in_free_set True moved_table Mutator 1, in_free_set True moved_table Collector 1)
     = (Inr False, Inr True)"
  by code_simp

text \<open>
  The table where region 1 was put in the Mutator partition and moved to the Collector
  partition.
\<close>

theorem partitions_disjoint_witness:
  "legal_table True moved_table none_retired \<and>
   \<not> (in_free_set True moved_table Mutator 1 = Inr True \<and>
      in_free_set True moved_table Collector 1 = Inr True) \<and>
   in_free_set True moved_table Mutator 1 = Inr False \<and>
   in_free_set True moved_table Collector 1 = Inr True"
  using partitions_disjoint [OF moved_table_legal, of 1] moved_table_legal moved_table_members
  by simp

subsection \<open>Retirement\<close>







lemma returned_with: "map_sum id fst x = Inr i \<Longrightarrow> x = Inr (i, snd (projr x))"
  by (cases x) auto














subsection \<open>The leftmost empty region\<close>

text \<open>
  Claim C7: when \<^verbatim>\<open>leftmost_empty(P)\<close> returns \<open>max_regions\<close>, no region of \<open>P\<close> is fully
  empty. The code does not do this after \<^verbatim>\<open>rebuild\<close>, one \<^verbatim>\<open>allocate\<close> and
  \<^verbatim>\<open>move_regions_from_collector_to_mutator(1)\<close> on eleven half-full and five empty regions:
  \<^verbatim>\<open>leftmost_empty(Mutator)\<close> answers 16, which is \<open>max_regions\<close>, while region 12 is in the
  Mutator partition with all its 1048576 bytes available. In
  \<^verbatim>\<open>expand_interval_if_boundary_modified\<close> the scan of \<^verbatim>\<open>leftmost_empty\<close> memoizes region
  12, then the scan of \<^verbatim>\<open>rightmost_empty\<close>, which starts below it at the stale bound 11,
  finds nothing and resets both bounds, and only the right one is set again. Both builds
  reach this table, and \<^verbatim>\<open>assert_bounds\<close> rejects it.
\<close>

theorem leftmost_empty_misses_empty_region:
  "stale_bound_query dbg = Some (Inr (16, Inr True, Inr 1048576, Inl AssertionFailure))"
  by (cases dbg) (simp_all only: sbq_debug sbq_product)

subsection \<open>The allocation bias\<close>

text \<open>
  Claim C8, as amended. In a call of \<^verbatim>\<open>allocate_single\<close> for a mutator request that finds
  the counter \<^verbatim>\<open>_alloc_bias_weight\<close> at zero or below, where \<^verbatim>\<open>leftmost_empty(Mutator)\<close>
  returns \<open>le\<close> and \<^verbatim>\<open>rightmost_empty(Mutator)\<close> returns \<open>re\<close>: the direction becomes
  right-to-left exactly when \<open>rightmost - re\<close> is greater than \<open>le - leftmost\<close>, the counter
  becomes 256, and the free set has this direction and this counter when the call returns.
  The two numbers are distances between region indices: \<open>le\<close> is \<open>max_regions\<close> when the
  query finds no empty region of the partition and \<open>re\<close> is \<open>-1\<close>, and the indices in
  between are counted whether their regions are in the Mutator partition or not, and
  empty or not. The scan starts at \<open>rightmost\<close> when the direction is right-to-left and at
  \<open>leftmost\<close> otherwise; when that region does not serve the request, it goes on from the
  next member of the partition below, respectively above.
\<close>

theorem allocation_bias_reconsidered:
  assumes "is_mutator_alloc req" and "alloc_bias_weight fs \<le> 0"
    and "leftmost_empty dbg (alloc_capacity_idx opts (heap fs)) (partitions fs) Mutator = Inr (le, p1)"
    and "rightmost_empty dbg (alloc_capacity_idx opts (heap fs)) p1 Mutator = Inr (re, p2)"
  shows "let l = leftmost (partitions fs) Mutator;
             r = rightmost (partitions fs) Mutator;
             d = (r - re > le - l);
             fs2 = fs\<lparr>partitions := p2, right_to_left_bias := d, alloc_bias_weight := 256\<rparr>
         in allocate_single dbg opts fs req in_new_region =
              (if r < l then Some (Inr (None, in_new_region, req, fs2))
               else case mutator_try_region dbg opts fs2 req in_new_region (if d then r else l) of
                      Inl e \<Rightarrow> Some (Inl e)
                    | Inr (result, n, q, fs3) \<Rightarrow>
                        if result \<noteq> None then Some (Inr (result, n, q, fs3))
                        else if d then
                          (case find_index_of_previous_available_region dbg (partitions fs3)
                                  Mutator (r - 1) of
                             Inl e \<Rightarrow> Some (Inl e)
                           | Inr j \<Rightarrow> mutator_scan_right_to_left dbg opts fs3 q n j l)
                        else
                          (case find_index_of_next_available_region dbg (partitions fs3)
                                  Mutator (l + 1) of
                             Inl e \<Rightarrow> Some (Inl e)
                           | Inr j \<Rightarrow> mutator_scan_left_to_right dbg opts fs3 q n j r)) \<and>
            (\<forall>result n q fs'.
               allocate_single dbg opts fs req in_new_region = Some (Inr (result, n, q, fs')) \<longrightarrow>
               right_to_left_bias fs' = d \<and> alloc_bias_weight fs' = 256) \<and>
            (le = max_regions (partitions fs) \<or>
             empty_member (alloc_capacity_idx opts (heap fs)) (partitions fs) Mutator le) \<and>
            (re = - 1 \<or>
             empty_member (alloc_capacity_idx opts (heap fs)) (partitions fs) Mutator re)"
proof -
  have a: "le = max_regions (partitions fs) \<or>
           empty_member (alloc_capacity_idx opts (heap fs)) (partitions fs) Mutator le"
    by (rule leftmost_empty_sentinel [OF assms(3)])
  have "empty_member (alloc_capacity_idx opts (heap fs)) p1 Mutator re
        = empty_member (alloc_capacity_idx opts (heap fs)) (partitions fs) Mutator re"
    using leftmost_empty_same_core [OF assms(3)] leftmost_empty_gap(2,3) [OF assms(3)]
    by (rule empty_member_same)
  then have b: "re = - 1 \<or>
           empty_member (alloc_capacity_idx opts (heap fs)) (partitions fs) Mutator re"
    using rightmost_empty_sentinel [OF assms(4)] by simp
  show ?thesis
    unfolding Let_def
    using allocation_bias_step [OF assms refl refl refl refl] a b
    by blast
qed

text \<open>
  Two heaps: eight full regions, four half-full regions and four empty ones; and four
  full regions, eight half-full regions and four empty ones. After \<^verbatim>\<open>rebuild\<close> the Mutator
  partition is the half-full regions, \<open>[8, 11]\<close> and \<open>[4, 11]\<close>, and the empty regions are
  the reserve of the collector.
\<close>

definition crowded_heap :: "ShenandoahHeapRegion list" where
  "crowded_heap = replicate 8 full_region @ replicate 4 half_region @ replicate 4 empty_region"

definition packed_heap :: "ShenandoahHeapRegion list" where
  "packed_heap = replicate 4 full_region @ replicate 8 half_region @ replicate 4 empty_region"

definition bias_free_set :: ShenandoahFreeSet where
  "bias_free_set = projr (after_rebuild True crowded_heap)"

definition bias_capacity :: capacity_query where
  "bias_capacity = alloc_capacity_idx scenario_options (heap bias_free_set)"

definition bias_table1 :: ShenandoahRegionPartitions where
  "bias_table1 = snd (projr (leftmost_empty True bias_capacity (partitions bias_free_set) Mutator))"

definition bias_table2 :: ShenandoahRegionPartitions where
  "bias_table2 = snd (projr (rightmost_empty True bias_capacity bias_table1 Mutator))"

definition bias_probe :: alloc_result where
  "bias_probe =
     projr (mutator_try_region True scenario_options
              (bias_free_set\<lparr>partitions := bias_table2, right_to_left_bias := True,
                               alloc_bias_weight := 256\<rparr>)
              (shared_request 1000) False 11)"

lemma bias_weight: "alloc_bias_weight bias_free_set = 0"
  by code_simp

lemma bias_left:
  "map_sum id fst (leftmost_empty True bias_capacity (partitions bias_free_set) Mutator) = Inr 16"
  by code_simp

lemma bias_right:
  "map_sum id fst (rightmost_empty True bias_capacity bias_table1 Mutator) = Inr (- 1)"
  by code_simp

lemma bias_bounds:
  "(leftmost (partitions bias_free_set) Mutator, rightmost (partitions bias_free_set) Mutator,
    max_regions (partitions bias_free_set)) = (8, 11, 16)"
  by code_simp

lemma bias_probe_result:
  "map_sum id fst
     (mutator_try_region True scenario_options
        (bias_free_set\<lparr>partitions := bias_table2, right_to_left_bias := True,
                         alloc_bias_weight := 256\<rparr>)
        (shared_request 1000) False 11) = Inr (Some (11, 524288))"
  by code_simp

text \<open>
  On the first heap \<^verbatim>\<open>leftmost_empty\<close> answers 16, which is \<open>max_regions\<close>, and
  \<^verbatim>\<open>rightmost_empty\<close> answers \<open>-1\<close>: \<open>11 - (-1) = 12\<close> is greater than \<open>16 - 8 = 8\<close>, the
  scan goes from right to left and the request for 1000 words is served from region 11.
\<close>

theorem allocation_bias_reconsidered_witness:
  "is_mutator_alloc (shared_request 1000) \<and> alloc_bias_weight bias_free_set \<le> 0 \<and>
   leftmost_empty True bias_capacity (partitions bias_free_set) Mutator = Inr (16, bias_table1) \<and>
   rightmost_empty True bias_capacity bias_table1 Mutator = Inr (- 1, bias_table2) \<and>
   leftmost (partitions bias_free_set) Mutator = 8 \<and>
   rightmost (partitions bias_free_set) Mutator = 11 \<and>
   max_regions (partitions bias_free_set) = 16 \<and>
   allocate_single True scenario_options bias_free_set (shared_request 1000) False
     = Some (Inr (Some (11, 524288), snd bias_probe)) \<and>
   right_to_left_bias (snd (snd (snd bias_probe))) \<and>
   alloc_bias_weight (snd (snd (snd bias_probe))) = 256"
proof -
  have m: "is_mutator_alloc (shared_request 1000)"
    by (simp add: is_mutator_alloc_def shared_request_def)
  have w: "alloc_bias_weight bias_free_set \<le> 0" by (simp add: bias_weight)
  have l: "leftmost_empty True (alloc_capacity_idx scenario_options (heap bias_free_set))
             (partitions bias_free_set) Mutator = Inr (16, bias_table1)"
    using returned_with [OF bias_left] by (simp add: bias_table1_def bias_capacity_def)
  have r: "rightmost_empty True (alloc_capacity_idx scenario_options (heap bias_free_set))
             bias_table1 Mutator = Inr (- 1, bias_table2)"
    using returned_with [OF bias_right] by (simp add: bias_table2_def bias_capacity_def)
  have b: "leftmost (partitions bias_free_set) Mutator = 8"
    "rightmost (partitions bias_free_set) Mutator = 11"
    "max_regions (partitions bias_free_set) = 16"
    using bias_bounds by simp_all
  have p: "mutator_try_region True scenario_options
             (bias_free_set\<lparr>partitions := bias_table2, right_to_left_bias := True,
                              alloc_bias_weight := 256\<rparr>)
             (shared_request 1000) False 11 = Inr (Some (11, 524288), snd bias_probe)"
    using returned_with [OF bias_probe_result] by (simp add: bias_probe_def)
  note inst = allocation_bias_reconsidered [OF m w l r, of False]
  have eq: "allocate_single True scenario_options bias_free_set (shared_request 1000) False
              = Some (Inr (Some (11, 524288), snd bias_probe))"
    using inst b p by (simp add: Let_def split: prod.splits)
  have eq': "allocate_single True scenario_options bias_free_set (shared_request 1000) False
              = Some (Inr (Some (11, 524288), fst (snd bias_probe), fst (snd (snd bias_probe)),
                           snd (snd (snd bias_probe))))"
    using eq by simp
  note post = inst [unfolded Let_def, THEN conjunct2, THEN conjunct1, rule_format, OF eq']
  have "right_to_left_bias (snd (snd (snd bias_probe))) \<and>
        alloc_bias_weight (snd (snd (snd bias_probe))) = 256"
    using post b by simp
  then show ?thesis
    using m w l r b eq by (simp add: bias_capacity_def)
qed

text \<open>
  Following the spec: the number of non-empty regions between two indices, a region being
  non-empty when not all of its bytes are available.
\<close>

definition spec_non_empty_region :: "vm_options \<Rightarrow> ShenandoahFreeSet \<Rightarrow> int \<Rightarrow> bool" where
  "spec_non_empty_region opts fs j =
     (case get_region (heap fs) j of
        None \<Rightarrow> False
      | Some r \<Rightarrow> alloc_capacity opts r \<noteq> region_size opts)"

definition spec_non_empty_between :: "vm_options \<Rightarrow> ShenandoahFreeSet \<Rightarrow> int \<Rightarrow> int \<Rightarrow> nat" where
  "spec_non_empty_between opts fs lo hi = length (filter (spec_non_empty_region opts fs) [lo .. hi])"

text \<open>
  \<^verbatim>\<open>rebuild\<close>, then \<^verbatim>\<open>allocate\<close> of 1000 words. The summary is the range of the Mutator
  partition and what the two queries answer before the call, \<open>(leftmost, rightmost, le,
  re)\<close>; the numbers of non-empty regions on the left side, from \<open>leftmost\<close> to \<open>le\<close>, and
  on the right side, from \<open>re\<close> to \<open>rightmost\<close>, first among all the regions between these
  bounds and then among those inside the Mutator range only; and the address, the
  direction and the counter after the call.
\<close>

definition bias_summary ::
  "bool \<Rightarrow> ShenandoahHeapRegion list
     \<Rightarrow> (vm_error + (int \<times> int \<times> int \<times> int) \<times> (nat \<times> nat) \<times> (nat \<times> nat)
                      \<times> HeapWordPtr option \<times> bool \<times> int) option" where
  "bias_summary dbg rs =
     (case after_rebuild dbg rs of
        Inl e \<Rightarrow> Some (Inl e)
      | Inr fs \<Rightarrow>
          (case leftmost_empty dbg (alloc_capacity_idx scenario_options (heap fs)) (partitions fs)
                  Mutator of
             Inl e \<Rightarrow> Some (Inl e)
           | Inr (le, p1) \<Rightarrow>
               (case rightmost_empty dbg (alloc_capacity_idx scenario_options (heap fs)) p1
                       Mutator of
                  Inl e \<Rightarrow> Some (Inl e)
                | Inr (re, p2) \<Rightarrow>
                    (let l = leftmost (partitions fs) Mutator;
                         r = rightmost (partitions fs) Mutator
                     in map_option
                          (map_sum id
                             (\<lambda>(result, in_new_region, req, fs').
                                ((l, r, le, re),
                                 (spec_non_empty_between scenario_options fs l (le - 1),
                                  spec_non_empty_between scenario_options fs (re + 1) r),
                                 (spec_non_empty_between scenario_options fs l (min (le - 1) r),
                                  spec_non_empty_between scenario_options fs (max (re + 1) l) r),
                                 result, right_to_left_bias fs', alloc_bias_weight fs')))
                          (allocate dbg scenario_options fs (shared_request 1000) False)))))"

lemma bias_summary_crowded:
  "bias_summary True crowded_heap
     = Some (Inr ((8, 11, 16, - 1), (4, 12), (4, 4), Some (11, 524288), True, 256))"
  "bias_summary False crowded_heap
     = Some (Inr ((8, 11, 16, - 1), (4, 12), (4, 4), Some (11, 524288), True, 256))"
  by code_simp+

lemma bias_summary_packed:
  "bias_summary True packed_heap
     = Some (Inr ((4, 11, 16, - 1), (8, 12), (8, 8), Some (4, 524288), False, 256))"
  "bias_summary False packed_heap
     = Some (Inr ((4, 11, 16, - 1), (8, 12), (8, 8), Some (4, 524288), False, 256))"
  by code_simp+

text \<open>
  Claim C8 as stated fails when the Mutator partition has no empty region, where
  \<^verbatim>\<open>leftmost_empty\<close> answers 16 and \<^verbatim>\<open>rightmost_empty\<close> answers \<open>-1\<close>. On the first heap
  the Mutator range \<open>[8, 11]\<close> holds four non-empty regions, the same four on either side,
  so the right side does not have more; the code compares \<open>11 - (-1) = 12\<close> with
  \<open>16 - 8 = 8\<close>, sets the direction right-to-left and serves the request from region 11.
  If the regions between the bounds are counted outside of the Mutator range as well,
  the second heap contradicts the claim: there are 8 non-empty regions from 4 to 15 and
  12 from 0 to 11, more on the right side, and the code compares \<open>11 - (-1) = 12\<close> with
  \<open>16 - 4 = 12\<close>, sets the direction left-to-right and serves the request from region 4.
  A debug and a product build agree.
\<close>

theorem allocation_bias_against_counts:
  "bias_summary True crowded_heap
     = Some (Inr ((8, 11, 16, - 1), (4, 12), (4, 4), Some (11, 524288), True, 256)) \<and>
   bias_summary False crowded_heap
     = Some (Inr ((8, 11, 16, - 1), (4, 12), (4, 4), Some (11, 524288), True, 256)) \<and>
   bias_summary True packed_heap
     = Some (Inr ((4, 11, 16, - 1), (8, 12), (8, 8), Some (4, 524288), False, 256)) \<and>
   bias_summary False packed_heap
     = Some (Inr ((4, 11, 16, - 1), (8, 12), (8, 8), Some (4, 524288), False, 256))"
  by (simp only: bias_summary_crowded bias_summary_packed simp_thms)

end
